theory Spec2Isabelle
  imports Main "HOL-Library.Word" "HOL-Library.Multiset" "HOL-Library.Product_Lexorder"
begin

section \<open>Layout-id manager (backend/dnnl/dnnl\_backend.hpp)\<close>

text \<open>
  \<^verbatim>\<open>layout_id_manager_t\<close> keeps a vector \<^verbatim>\<open>mem_descs_.data_\<close> of memory descriptors.
  The comparison \<^verbatim>\<open>is_mem_desc_equal\<close> is pure virtual in the class, so it is a
  parameter of the model.  A layout id is a \<^verbatim>\<open>size_t\<close> index into the vector; the
  vector never holds more than \<open>2^64\<close> entries, so ids are natural numbers.
\<close>

text \<open>\<^verbatim>\<open>std::find_if\<close> followed by \<^verbatim>\<open>std::distance(begin, pos)\<close>: the index of the first
  element satisfying the predicate, or the length of the vector (\<^verbatim>\<open>end()\<close>) if none does.\<close>

fun find_if :: "('a \<Rightarrow> bool) \<Rightarrow> 'a list \<Rightarrow> nat" where
  "find_if P [] = 0"
| "find_if P (x # xs) = (if P x then 0 else Suc (find_if P xs))"

definition set_mem_desc ::
  "('md \<Rightarrow> 'md \<Rightarrow> bool) \<Rightarrow> 'md list \<Rightarrow> 'md \<Rightarrow> nat option \<times> 'md list" where
  "set_mem_desc is_mem_desc_equal data mem_desc =
     (let pos = find_if (\<lambda>m. is_mem_desc_equal m mem_desc) data in
      if pos \<noteq> length data then (Some pos, data)
      else (let data' = data @ [mem_desc] in (Some (length data' - 1), data')))"

definition get_mem_desc :: "'md list \<Rightarrow> nat \<Rightarrow> 'md option" where
  "get_mem_desc data layout_id =
     (if layout_id \<ge> length data then None else Some (data ! layout_id))"

text \<open>The table after a sequence of further calls of \<^verbatim>\<open>set_mem_desc\<close>.\<close>

fun set_mem_descs :: "('md \<Rightarrow> 'md \<Rightarrow> bool) \<Rightarrow> 'md list \<Rightarrow> 'md list \<Rightarrow> 'md list" where
  "set_mem_descs is_mem_desc_equal data [] = data"
| "set_mem_descs is_mem_desc_equal data (md # mds) =
     set_mem_descs is_mem_desc_equal (snd (set_mem_desc is_mem_desc_equal data md)) mds"

section \<open>Graph model (interface/graph.hpp)\<close>

text \<open>
  The status codes that the sources return (\<^verbatim>\<open>impl::status\<close>); every other code of the
  enumeration is \<open>failure n\<close>.
\<close>

datatype status = success | invalid_op | invalid_shape | unsupported | failure nat

datatype layout_type = undef | any | strided | opaque

text \<open>
  A logical tensor: \<^verbatim>\<open>ndims\<close> is a signed 32-bit count; \<^verbatim>\<open>dims\<close> and
  \<^verbatim>\<open>layout.strides\<close> are arrays of \<^verbatim>\<open>int64_t\<close>, modelled as 64-bit words that are
  compared as signed numbers and multiplied with wrap-around (the two's complement result
  of the multiplication).
\<close>

record logical_tensor_t =
  lt_id :: nat
  ndims :: int
  dims :: "64 word list"
  layout_type :: layout_type
  strides :: "64 word list"

type_synonym op_ptr = nat
type_synonym value_ptr = nat
type_synonym partition_ptr = nat

text \<open>
  \<^verbatim>\<open>value_t\<close> and \<^verbatim>\<open>op_t\<close> are declared in interface/value.hpp and interface/op.hpp,
  which are not among the sources; the records hold what the functions below read and
  write through their accessors.  A value: its producer (if any), its consumers (op and
  input slot) and its descriptor.
\<close>

record value_t =
  producer :: "op_ptr option"
  consumers :: "(op_ptr \<times> nat) list"
  logical_tensor :: logical_tensor_t

text \<open>An op: its id, its kind, its input and output values, its attribute map and the
  partition that claimed it (if any).\<close>

record op_t =
  op_id :: nat
  kind :: nat
  inputs :: "value_ptr list"
  outputs :: "value_ptr list"
  attrs :: "(string \<times> int list) list"
  partition :: "partition_ptr option"

text \<open>
  Modelled from the spec: \<^verbatim>\<open>compiler_partition_impl_t\<close> (compiler\_partition\_impl.hpp is
  not among the sources).  A partition groups ops and records its input and output
  values; \<^verbatim>\<open>add_op\<close>, \<^verbatim>\<open>add_input_tensor\<close> and \<^verbatim>\<open>add_output_tensor\<close> append to
  the respective list.  A boundary entry keeps the value and the descriptor it had when
  it was recorded; \<^verbatim>\<open>get_inputs\<close> and \<^verbatim>\<open>get_outputs\<close> give the descriptors.
\<close>

record compiler_partition_impl_t =
  p_engine_kind :: nat
  p_ops :: "op_ptr list"
  p_inputs :: "(value_ptr \<times> logical_tensor_t) list"
  p_outputs :: "(value_ptr \<times> logical_tensor_t) list"

text \<open>
  The graph together with the memory its pointers refer to.  Ops and values are shared
  objects reached through pointers, so they live in two heaps; every pointer handed to
  the functions below refers to a live object, as the C++ requires.  \<open>next_op\<close> is the
  address that the next \<^verbatim>\<open>std::make_shared<op_t>\<close> returns.  A partition is identified
  by its position in \<^verbatim>\<open>partition_impls_\<close>.  The members \<^verbatim>\<open>ops_\<close>,
  \<^verbatim>\<open>engine_kind_\<close> and \<^verbatim>\<open>partition_impls_\<close> are written without the trailing underscore.
\<close>

record graph_t =
  op_heap :: "op_ptr \<Rightarrow> op_t"
  value_heap :: "value_ptr \<Rightarrow> value_t"
  next_op :: op_ptr
  ops :: "op_ptr list"
  engine_kind :: nat
  partition_impls :: "compiler_partition_impl_t list"

text \<open>
  Modelled from the spec: the op schema registry (interface/op\_schema.hpp is not among the
  sources).  Given an op kind it returns an optional schema exposing \<^verbatim>\<open>verify(op)\<close>,
  \<^verbatim>\<open>set_default_attribute(op)\<close>, which fills in the attribute map of the op, and
  \<^verbatim>\<open>shape_infer(op, inputs, outputs)\<close>, which returns a status and writes the output
  descriptors it was handed (as many as it was given).
\<close>

record op_schema_t =
  set_default_attribute :: "op_t \<Rightarrow> (string \<times> int list) list"
  verify :: "op_t \<Rightarrow> bool"
  shape_infer :: "op_t \<Rightarrow> logical_tensor_t list \<Rightarrow> logical_tensor_t list
                    \<Rightarrow> status \<times> logical_tensor_t list"

type_synonym op_schema_registry_t = "nat \<Rightarrow> op_schema_t option"

text \<open>The loop \<^verbatim>\<open>back_op->get_output_value(i)->set_producer(*back_op)\<close> of \<^verbatim>\<open>add_op\<close>.\<close>

fun set_producers :: "value_ptr list \<Rightarrow> op_ptr \<Rightarrow> graph_t \<Rightarrow> graph_t" where
  "set_producers [] back_op g = g"
| "set_producers (v # vs) back_op g =
     set_producers vs back_op
       (g\<lparr>value_heap := (value_heap g)(v := (value_heap g v)\<lparr>producer := Some back_op\<rparr>)\<rparr>)"

text \<open>\<^verbatim>\<open>ops_.push_back(std::make_shared<op_t>(tmp_ln))\<close> and the loop after it.\<close>

definition push_back_op :: "op_t \<Rightarrow> graph_t \<Rightarrow> graph_t" where
  "push_back_op tmp_ln g =
     (let back_op = next_op g;
          g' = g\<lparr>op_heap := (op_heap g)(back_op := tmp_ln),
                 next_op := Suc back_op,
                 ops := ops g @ [back_op]\<rparr>
      in set_producers (outputs tmp_ln) back_op g')"

text \<open>\<^verbatim>\<open>add_op\<close>: the argument is a pointer that may be null, so it is an optional op.\<close>

definition add_op :: "op_schema_registry_t \<Rightarrow> op_t option \<Rightarrow> graph_t \<Rightarrow> status \<times> graph_t" where
  "add_op get_op_schema l_n g =
     (case l_n of
        None \<Rightarrow> (invalid_op, g)
      | Some n \<Rightarrow>
          if list_all (\<lambda>p. \<not> (op_id (op_heap g p) = op_id n)) (ops g)
          then (case get_op_schema (kind n) of
                  None \<Rightarrow> (success, push_back_op n g)
                | Some opm \<Rightarrow>
                    (let tmp_ln = n\<lparr>attrs := set_default_attribute opm n\<rparr> in
                     if \<not> verify opm tmp_ln then (invalid_op, g)
                     else (success, push_back_op tmp_ln g)))
          else (success, g))"

text \<open>\<^verbatim>\<open>get_output_ops\<close>: the ops none of whose outputs has a consumer;
  \<^verbatim>\<open>num_output_consumers(i)\<close> of \<^verbatim>\<open>op_t\<close> is the number of consumers of the output
  value \<open>i\<close>.\<close>

definition num_output_consumers :: "graph_t \<Rightarrow> op_t \<Rightarrow> nat \<Rightarrow> nat" where
  "num_output_consumers g n i = length (consumers (value_heap g (outputs n ! i)))"

definition get_output_ops :: "graph_t \<Rightarrow> op_ptr list" where
  "get_output_ops g =
     filter (\<lambda>p. (\<Sum>i \<leftarrow> [0..<length (outputs (op_heap g p))].
                     num_output_consumers g (op_heap g p) i) = 0)
       (ops g)"

text \<open>\<^verbatim>\<open>get_input_values\<close>: the inner loop over the inputs of one op, then the loop over
  the ops.\<close>

fun input_values_of :: "graph_t \<Rightarrow> value_ptr list \<Rightarrow> value_ptr list" where
  "input_values_of g [] = []"
| "input_values_of g (in_val # rest) =
     (case producer (value_heap g in_val) of
        None \<Rightarrow> in_val # input_values_of g rest
      | Some pr \<Rightarrow>
          if list_all (\<lambda>p. \<not> (p = pr)) (ops g)
          then in_val # input_values_of g rest
          else input_values_of g rest)"

definition get_input_values :: "graph_t \<Rightarrow> value_ptr list" where
  "get_input_values g = concat (map (\<lambda>n. input_values_of g (inputs (op_heap g n))) (ops g))"

text \<open>\<^verbatim>\<open>get_output_values\<close>: the scan of the consumers of one output value, the loop over
  the outputs of one op, then the loop over the ops.\<close>

fun has_outer_consumer :: "graph_t \<Rightarrow> (op_ptr \<times> nat) list \<Rightarrow> bool" where
  "has_outer_consumer g [] = False"
| "has_outer_consumer g (csm # rest) =
     (if list_all (\<lambda>p. \<not> (p = fst csm)) (ops g) then True else has_outer_consumer g rest)"

definition output_values_of :: "graph_t \<Rightarrow> value_ptr list \<Rightarrow> value_ptr list" where
  "output_values_of g out_vals =
     filter (\<lambda>out_val. consumers (value_heap g out_val) = []
                        \<or> has_outer_consumer g (consumers (value_heap g out_val))) out_vals"

definition get_output_values :: "graph_t \<Rightarrow> value_ptr list" where
  "get_output_values g = concat (map (\<lambda>n. output_values_of g (outputs (op_heap g n))) (ops g))"

text \<open>
  Modelled from the spec: \<^verbatim>\<open>topo_order_visit\<close> (interface/op.hpp is not among the
  sources).  It calls the function on the ops in a topological order and returns the
  first status that is not success, or success after the last op.  The order in which
  the ops are visited is a parameter of \<^verbatim>\<open>infer_shape\<close> below.
\<close>

fun topo_order_visit ::
  "op_ptr list \<Rightarrow> (op_ptr \<Rightarrow> 's \<Rightarrow> status \<times> 's) \<Rightarrow> 's \<Rightarrow> status \<times> 's" where
  "topo_order_visit [] func s = (success, s)"
| "topo_order_visit (p # rest) func s =
     (case func p s of
        (ret, s') \<Rightarrow> if ret \<noteq> success then (ret, s') else topo_order_visit rest func s')"

text \<open>The loop \<^verbatim>\<open>op->get_output_value(i)->set_logical_tensor(tmp_outputs[i])\<close>.\<close>

fun set_logical_tensors :: "value_ptr list \<Rightarrow> logical_tensor_t list \<Rightarrow> graph_t \<Rightarrow> graph_t" where
  "set_logical_tensors (v # vs) (lt # lts) g =
     set_logical_tensors vs lts
       (g\<lparr>value_heap := (value_heap g)(v := (value_heap g v)\<lparr>logical_tensor := lt\<rparr>)\<rparr>)"
| "set_logical_tensors vs lts g = g"

text \<open>The function that \<^verbatim>\<open>infer_shape\<close> hands to \<^verbatim>\<open>topo_order_visit\<close>.\<close>

definition infer_shape_op :: "op_schema_registry_t \<Rightarrow> op_ptr \<Rightarrow> graph_t \<Rightarrow> status \<times> graph_t" where
  "infer_shape_op get_op_schema p g =
     (let op = op_heap g p;
          tmp_inputs = map (\<lambda>v. logical_tensor (value_heap g v)) (inputs op);
          tmp_outputs = map (\<lambda>v. logical_tensor (value_heap g v)) (outputs op)
      in case get_op_schema (kind op) of
           None \<Rightarrow> (invalid_op, g)
         | Some opm \<Rightarrow>
             (case shape_infer opm op tmp_inputs tmp_outputs of
                (ret, tmp_outputs') \<Rightarrow>
                  if ret \<noteq> success then (invalid_shape, g)
                  else (success, set_logical_tensors (outputs op) tmp_outputs' g)))"

text \<open>
  \<^verbatim>\<open>infer_shape\<close>.  \<^verbatim>\<open>is_shape_unknown\<close> belongs to \<^verbatim>\<open>logical_tensor_wrapper_t\<close>
  (interface/logical\_tensor.hpp is not among the sources) and is a parameter, as is the
  order \<open>topo_sort\<close> in which \<^verbatim>\<open>topo_order_visit\<close> reaches the ops from the output ops.
\<close>

fun check_inputs_shape :: "(logical_tensor_t \<Rightarrow> bool) \<Rightarrow> graph_t \<Rightarrow> value_ptr list \<Rightarrow> bool" where
  "check_inputs_shape is_shape_unknown g [] = True"
| "check_inputs_shape is_shape_unknown g (v # vs) =
     (if is_shape_unknown (logical_tensor (value_heap g v)) then False
      else check_inputs_shape is_shape_unknown g vs)"

definition infer_shape ::
  "(logical_tensor_t \<Rightarrow> bool) \<Rightarrow> (graph_t \<Rightarrow> op_ptr list \<Rightarrow> op_ptr list)
     \<Rightarrow> op_schema_registry_t \<Rightarrow> graph_t \<Rightarrow> status \<times> graph_t" where
  "infer_shape is_shape_unknown topo_sort get_op_schema g =
     (if \<not> check_inputs_shape is_shape_unknown g (get_input_values g) then (invalid_shape, g)
      else topo_order_visit (topo_sort g (get_output_ops g)) (infer_shape_op get_op_schema) g)"

section \<open>Partitioner (backend/graph\_compiler/patterns/pattern\_utils.hpp)\<close>

text \<open>\<^verbatim>\<open>std::sort\<close> with a comparator, as an insertion sort.  The order that \<^verbatim>\<open>std::sort\<close>
  gives to elements that compare equivalent is unspecified; the validity check below reads
  only the strides and sizes at the sorted indices, which are the same for such elements,
  so its result is the same for every sorted order of the axes (see
  \<open>check_logical_tensor_validity_iff\<close>).\<close>

fun insert_by :: "('a \<Rightarrow> 'a \<Rightarrow> bool) \<Rightarrow> 'a \<Rightarrow> 'a list \<Rightarrow> 'a list" where
  "insert_by cmp x [] = [x]"
| "insert_by cmp x (y # ys) = (if cmp y x then y # insert_by cmp x ys else x # y # ys)"

fun sort_by :: "('a \<Rightarrow> 'a \<Rightarrow> bool) \<Rightarrow> 'a list \<Rightarrow> 'a list" where
  "sort_by cmp [] = []"
| "sort_by cmp (x # xs) = insert_by cmp x (sort_by cmp xs)"

definition stride_less :: "64 word list \<Rightarrow> 64 word list \<Rightarrow> nat \<Rightarrow> nat \<Rightarrow> bool" where
  "stride_less sizes strds i j =
     (if strds ! i = strds ! j then sint (sizes ! i) < sint (sizes ! j)
      else sint (strds ! i) < sint (strds ! j))"

text \<open>The loop \<^verbatim>\<open>for (i = 1; i < ndims; ++i)\<close> over neighbouring sorted indices.\<close>

fun check_chain :: "64 word list \<Rightarrow> 64 word list \<Rightarrow> nat list \<Rightarrow> bool" where
  "check_chain sizes strds (p # q # rest) =
     (if strds ! q \<noteq> strds ! p * sizes ! p then False
      else check_chain sizes strds (q # rest))"
| "check_chain sizes strds rest = True"

definition check_logical_tensor_validity :: "logical_tensor_t \<Rightarrow> bool" where
  "check_logical_tensor_validity lt =
     (if layout_type lt \<noteq> strided then False
      else if ndims lt \<le> 0 then False
      else (let sizes = take (nat (ndims lt)) (dims lt);
                strds = take (nat (ndims lt)) (strides lt);
                indices = sort_by (stride_less sizes strds) [0..<nat (ndims lt)]
            in if strds ! (indices ! 0) \<noteq> 1 then False
               else check_chain sizes strds indices))"

fun check_all_valid :: "logical_tensor_t list \<Rightarrow> bool" where
  "check_all_valid [] = True"
| "check_all_valid (lt # lts) =
     (if \<not> check_logical_tensor_validity lt then False else check_all_valid lts)"

definition check_inputs_outputs_validity ::
  "logical_tensor_t list \<Rightarrow> logical_tensor_t list \<Rightarrow> bool" where
  "check_inputs_outputs_validity ins outs =
     (if \<not> check_all_valid ins then False
      else if \<not> check_all_valid outs then False
      else True)"

text \<open>
  Modelled from the spec: \<^verbatim>\<open>get_inputs\<close>, \<^verbatim>\<open>get_outputs\<close>, \<^verbatim>\<open>add_input_tensor\<close> and
  \<^verbatim>\<open>add_output_tensor\<close> of \<^verbatim>\<open>compiler_partition_impl_t\<close>: a value that is added
  becomes an input or an output of the partition, with the descriptor it has.
\<close>

definition get_inputs :: "compiler_partition_impl_t \<Rightarrow> logical_tensor_t list" where
  "get_inputs pimpl = map snd (p_inputs pimpl)"

definition get_outputs :: "compiler_partition_impl_t \<Rightarrow> logical_tensor_t list" where
  "get_outputs pimpl = map snd (p_outputs pimpl)"

definition add_input_tensor ::
  "graph_t \<Rightarrow> value_ptr \<Rightarrow> compiler_partition_impl_t \<Rightarrow> compiler_partition_impl_t" where
  "add_input_tensor g v pimpl =
     pimpl\<lparr>p_inputs := p_inputs pimpl @ [(v, logical_tensor (value_heap g v))]\<rparr>"

definition add_output_tensor ::
  "graph_t \<Rightarrow> value_ptr \<Rightarrow> compiler_partition_impl_t \<Rightarrow> compiler_partition_impl_t" where
  "add_output_tensor g v pimpl =
     pimpl\<lparr>p_outputs := p_outputs pimpl @ [(v, logical_tensor (value_heap g v))]\<rparr>"

text \<open>The loop over the inputs of \<^verbatim>\<open>cur_op\<close>; \<open>visit\<close> is the set of matched ops.\<close>

fun scan_inputs ::
  "graph_t \<Rightarrow> op_ptr set \<Rightarrow> value_ptr list \<Rightarrow> compiler_partition_impl_t
     \<Rightarrow> compiler_partition_impl_t" where
  "scan_inputs g visit [] pimpl = pimpl"
| "scan_inputs g visit (in_value # rest) pimpl =
     scan_inputs g visit rest
       (if (case producer (value_heap g in_value) of
              None \<Rightarrow> True
            | Some p \<Rightarrow> p \<notin> visit)
        then add_input_tensor g in_value pimpl
        else pimpl)"

text \<open>The loop over the consumers of one output value, with its \<^verbatim>\<open>break\<close>.\<close>

fun scan_consumers :: "op_ptr set \<Rightarrow> (op_ptr \<times> nat) list \<Rightarrow> bool \<Rightarrow> bool" where
  "scan_consumers visit [] is_output = is_output"
| "scan_consumers visit (consumer # rest) is_output =
     (if fst consumer \<notin> visit then True else scan_consumers visit rest is_output)"

fun scan_outputs ::
  "graph_t \<Rightarrow> op_ptr set \<Rightarrow> value_ptr list \<Rightarrow> compiler_partition_impl_t
     \<Rightarrow> compiler_partition_impl_t" where
  "scan_outputs g visit [] pimpl = pimpl"
| "scan_outputs g visit (out_value # rest) pimpl =
     scan_outputs g visit rest
       (if scan_consumers visit (consumers (value_heap g out_value))
             (consumers (value_heap g out_value) = [])
        then add_output_tensor g out_value pimpl
        else pimpl)"

fun scan_ops ::
  "graph_t \<Rightarrow> op_ptr set \<Rightarrow> op_ptr list \<Rightarrow> compiler_partition_impl_t
     \<Rightarrow> compiler_partition_impl_t" where
  "scan_ops g visit [] pimpl = pimpl"
| "scan_ops g visit (cur_op # rest) pimpl =
     scan_ops g visit rest
       (scan_outputs g visit (outputs (op_heap g cur_op))
          (scan_inputs g visit (inputs (op_heap g cur_op)) pimpl))"

definition set_partition :: "op_ptr \<Rightarrow> partition_ptr \<Rightarrow> graph_t \<Rightarrow> graph_t" where
  "set_partition p pp g = g\<lparr>op_heap := (op_heap g)(p := (op_heap g p)\<lparr>partition := Some pp\<rparr>)\<rparr>"

text \<open>The loop that hands the matched ops to the partition (\<^verbatim>\<open>pimpl->add_op\<close>, which
  appends the op) and claims them for it.\<close>

fun claim_ops ::
  "op_ptr list \<Rightarrow> partition_ptr \<Rightarrow> graph_t \<Rightarrow> compiler_partition_impl_t
     \<Rightarrow> graph_t \<times> compiler_partition_impl_t" where
  "claim_ops [] pp g pimpl = (g, pimpl)"
| "claim_ops (p # rest) pp g pimpl =
     claim_ops rest pp (set_partition p pp g) (pimpl\<lparr>p_ops := p_ops pimpl @ [p]\<rparr>)"

definition add_partition :: "compiler_partition_impl_t \<Rightarrow> graph_t \<Rightarrow> graph_t" where
  "add_partition pimpl g = g\<lparr>partition_impls := partition_impls g @ [pimpl]\<rparr>"

text \<open>The partition that one match starts from, and its boundary after the scan.\<close>

definition new_pimpl :: "graph_t \<Rightarrow> compiler_partition_impl_t" where
  "new_pimpl g = \<lparr>p_engine_kind = engine_kind g, p_ops = [], p_inputs = [], p_outputs = []\<rparr>"

definition scan_match :: "graph_t \<Rightarrow> op_ptr list \<Rightarrow> compiler_partition_impl_t" where
  "scan_match g pairs = scan_ops g (set pairs) pairs (new_pimpl g)"

fun set_partitions :: "graph_t \<Rightarrow> op_ptr list list \<Rightarrow> graph_t" where
  "set_partitions g [] = g"
| "set_partitions g (pairs # rest) =
     (let pimpl = scan_match g pairs in
      if \<not> check_inputs_outputs_validity (get_inputs pimpl) (get_outputs pimpl)
      then set_partitions g rest
      else (case claim_ops pairs (length (partition_impls g)) g pimpl of
              (g', pimpl') \<Rightarrow> set_partitions (add_partition pimpl' g') rest))"

section \<open>Auxiliary notions for the partitioner\<close>



text \<open>The conditions under which the scan records a value as an input or an output
  of the partition whose matched ops are \<open>visit\<close>.\<close>

definition is_partition_input :: "graph_t \<Rightarrow> op_ptr set \<Rightarrow> value_ptr \<Rightarrow> bool" where
  "is_partition_input g visit v =
     (case producer (value_heap g v) of None \<Rightarrow> True | Some p \<Rightarrow> p \<notin> visit)"

definition is_partition_output :: "graph_t \<Rightarrow> op_ptr set \<Rightarrow> value_ptr \<Rightarrow> bool" where
  "is_partition_output g visit v =
     (consumers (value_heap g v) = [] \<or> (\<exists>c \<in> set (consumers (value_heap g v)). fst c \<notin> visit))"

definition same_structure :: "graph_t \<Rightarrow> graph_t \<Rightarrow> bool" where
  "same_structure g g' =
     (value_heap g' = value_heap g \<and> engine_kind g' = engine_kind g \<and> ops g' = ops g
      \<and> next_op g' = next_op g
      \<and> (\<forall>p. inputs (op_heap g' p) = inputs (op_heap g p)
             \<and> outputs (op_heap g' p) = outputs (op_heap g p)
             \<and> op_id (op_heap g' p) = op_id (op_heap g p)
             \<and> kind (op_heap g' p) = kind (op_heap g p)))"

definition accepted :: "graph_t \<Rightarrow> op_ptr list \<Rightarrow> bool" where
  "accepted g pairs =
     check_inputs_outputs_validity (get_inputs (scan_match g pairs)) (get_outputs (scan_match g pairs))"

text \<open>One iteration of the loop of \<^verbatim>\<open>set_partitions\<close> for an accepted match.\<close>

definition claim_match :: "graph_t \<Rightarrow> op_ptr list \<Rightarrow> graph_t" where
  "claim_match g pairs =
     add_partition ((scan_match g pairs)\<lparr>p_ops := pairs\<rparr>)
       (fold (\<lambda>p. set_partition p (length (partition_impls g))) pairs g)"

text \<open>Lists of ops whose sets are pairwise disjoint, and graphs in which every op of a
  partition points to that partition.\<close>

definition pairwise_disjoint :: "'a list list \<Rightarrow> bool" where
  "pairwise_disjoint xss =
     (\<forall>i<length xss. \<forall>j<length xss. i \<noteq> j \<longrightarrow> set (xss ! i) \<inter> set (xss ! j) = {})"


text \<open>
  A chain of three ops \<open>1 \<rightarrow> 2 \<rightarrow> 3\<close>: op \<open>p\<close> reads value \<open>p + 9\<close> and writes value
  \<open>p + 10\<close>; value 10 has no producer and value 13 no consumer.  Every tensor is a dense
  row-major \<open>2 \<times> 3\<close> tensor.
\<close>

definition lt_ok :: "nat \<Rightarrow> logical_tensor_t" where
  "lt_ok i = \<lparr>lt_id = i, ndims = 2, dims = [2, 3], layout_type = strided, strides = [3, 1]\<rparr>"

definition chain_graph :: graph_t where
  "chain_graph =
     \<lparr>op_heap = (\<lambda>p. \<lparr>op_id = p, kind = 0, inputs = [p + 9], outputs = [p + 10], attrs = [], partition = None\<rparr>),
      value_heap = (\<lambda>v. \<lparr>producer = (if v = 10 then None else Some (v - 10)),
                          consumers = (if v = 13 then [] else [(v - 9, 0)]),
                          logical_tensor = lt_ok v\<rparr>),
      next_op = 4, ops = [1, 2, 3], engine_kind = 0, partition_impls = []\<rparr>"



text \<open>A tensor of three axes whose sizes exceed \<open>2^32\<close>: the product of the second stride
  and the second size wraps around to the third stride.\<close>

definition lt_wrap :: logical_tensor_t where
  "lt_wrap = \<lparr>lt_id = 0, ndims = 3, dims = [4294967296, 4294967297, 4294967298],
              layout_type = strided, strides = [1, 4294967296, 4294967296]\<rparr>"

section \<open>Auxiliary notions for the graph operations\<close>

text \<open>Instances of the parameters of \<^verbatim>\<open>add_op\<close> and \<^verbatim>\<open>infer_shape\<close>: a shape is
  unknown when \<^verbatim>\<open>ndims\<close> is negative; a registry without schemas; a registry whose schemas
  accept every op and never infer a shape; the order \<open>1, 2, 3\<close> of the chain.\<close>

definition shape_unknown :: "logical_tensor_t \<Rightarrow> bool" where
  "shape_unknown lt = (ndims lt < 0)"

definition no_schemas :: op_schema_registry_t where
  "no_schemas k = None"

definition failing_schemas :: op_schema_registry_t where
  "failing_schemas k =
     Some \<lparr>set_default_attribute = attrs, verify = (\<lambda>n. True),
           shape_infer = (\<lambda>n ins outs. (unsupported, outs))\<rparr>"

definition chain_order :: "graph_t \<Rightarrow> op_ptr list \<Rightarrow> op_ptr list" where
  "chain_order g roots = [1, 2, 3]"

text \<open>Two graphs that differ at most in the descriptors of the values \<open>vs\<close>.\<close>

definition only_descriptors_differ :: "graph_t \<Rightarrow> graph_t \<Rightarrow> value_ptr list \<Rightarrow> bool" where
  "only_descriptors_differ g g' vs =
     (op_heap g' = op_heap g \<and> next_op g' = next_op g \<and> ops g' = ops g
      \<and> engine_kind g' = engine_kind g \<and> partition_impls g' = partition_impls g
      \<and> (\<forall>v. producer (value_heap g' v) = producer (value_heap g v)
             \<and> consumers (value_heap g' v) = consumers (value_heap g v)
             \<and> (v \<notin> set vs \<longrightarrow> value_heap g' v = value_heap g v)))"

text \<open>The chain whose input value 10 has an unknown shape.\<close>

definition unknown_graph :: graph_t where
  "unknown_graph =
     chain_graph\<lparr>value_heap := (value_heap chain_graph)
        (10 := (value_heap chain_graph 10)\<lparr>logical_tensor := (lt_ok 10)\<lparr>ndims := - 1\<rparr>\<rparr>)\<rparr>"

section \<open>Pattern matching (pattern\_utils.hpp)\<close>













section \<open>Pass pipeline (backend/dnnl/passes/utils.hpp)\<close>

text \<open>
  \<^verbatim>\<open>pass_pipeline_t\<close>.  A pass takes the subgraph by reference and returns a status, so
  it is a function from the subgraph to a status and the subgraph it leaves.  The
  validator (\<^verbatim>\<open>subgraph_validator_t::run\<close>, declared only) returns a status; the
  visualizer dumps the subgraph and its status is not used.  The members are written
  without their trailing underscore.
\<close>

record 'sg pass_pipeline_t =
  passes :: "('sg \<Rightarrow> status \<times> 'sg) list"
  names :: "string list"
  is_layout_sensitives :: "bool list"
  is_memory_sensitives :: "bool list"
  validator :: "'sg \<Rightarrow> status"
  is_layout_sensitive :: bool
  is_memory_sensitive :: bool

text \<open>The constructor, \<^verbatim>\<open>reset_visualize_arg\<close> and \<^verbatim>\<open>add_pass\<close>.\<close>

definition pass_pipeline :: "('sg \<Rightarrow> status) \<Rightarrow> 'sg pass_pipeline_t" where
  "pass_pipeline vld =
     \<lparr>passes = [], names = [], is_layout_sensitives = [], is_memory_sensitives = [],
      validator = vld, is_layout_sensitive = False, is_memory_sensitive = False\<rparr>"

definition reset_visualize_arg :: "bool \<Rightarrow> bool \<Rightarrow> 'sg pass_pipeline_t \<Rightarrow> 'sg pass_pipeline_t" where
  "reset_visualize_arg l m pl = pl\<lparr>is_layout_sensitive := l, is_memory_sensitive := m\<rparr>"

definition add_pass ::
  "('sg \<Rightarrow> status \<times> 'sg) \<Rightarrow> string \<Rightarrow> 'sg pass_pipeline_t \<Rightarrow> 'sg pass_pipeline_t" where
  "add_pass apass name pl =
     pl\<lparr>passes := passes pl @ [apass],
        names := names pl @ [name],
        is_layout_sensitives := is_layout_sensitives pl @ [is_layout_sensitive pl],
        is_memory_sensitives := is_memory_sensitives pl @ [is_memory_sensitive pl]\<rparr>"

text \<open>
  The calls that \<^verbatim>\<open>run\<close> makes, in the order it makes them: pass \<open>i\<close> and the status it
  returned, the dump after pass \<open>i\<close>, the validation after pass \<open>i\<close> and its status.  The
  log is not part of the source; it is there so that the order of the calls can be stated.
\<close>

datatype event = pass_called nat status | visualizer_called nat | validator_called nat status

text \<open>The loop of \<^verbatim>\<open>run\<close> from index \<open>i\<close> on.\<close>

function run_from ::
  "'sg pass_pipeline_t \<Rightarrow> nat \<Rightarrow> 'sg \<Rightarrow> event list \<Rightarrow> status \<times> 'sg \<times> event list" where
  "run_from pl i sg log =
     (if i < length (passes pl) then
        (case (passes pl ! i) sg of
           (ret, sg') \<Rightarrow>
             if ret \<noteq> success then (ret, sg', log @ [pass_called i ret])
             else (let ret' = validator pl sg' in
                   if ret' \<noteq> success
                   then (ret', sg', log @ [pass_called i ret, visualizer_called i,
                                           validator_called i ret'])
                   else run_from pl (Suc i) sg'
                          (log @ [pass_called i ret, visualizer_called i,
                                  validator_called i ret'])))
      else (success, sg, log))"
  by pat_completeness auto
termination
  by (relation "measure (\<lambda>(pl, i, sg, log). length (passes pl) - i)") auto

definition run :: "'sg pass_pipeline_t \<Rightarrow> 'sg \<Rightarrow> status \<times> 'sg \<times> event list" where
  "run pl sg = run_from pl 0 sg []"

text \<open>The events of pass \<open>i\<close> when the pass and the validation after it succeed.\<close>

definition full_round :: "nat \<Rightarrow> event list" where
  "full_round i = [pass_called i success, visualizer_called i, validator_called i success]"

definition full_rounds :: "nat \<Rightarrow> nat \<Rightarrow> event list" where
  "full_rounds i k = concat (map full_round [i..<k])"

text \<open>
  What the passes and the validator return when they are applied one after the other,
  whatever the statuses: the subgraph after the first \<open>i\<close> passes, the status of pass
  \<open>i\<close> on the subgraph that the passes before it left, and the status of the validation of
  the subgraph that pass \<open>i\<close> left.  Round \<open>i\<close> is fine when both are success.
\<close>

fun after_passes :: "'sg pass_pipeline_t \<Rightarrow> 'sg \<Rightarrow> nat \<Rightarrow> 'sg" where
  "after_passes pl sg 0 = sg"
| "after_passes pl sg (Suc i) = snd ((passes pl ! i) (after_passes pl sg i))"

definition pass_status :: "'sg pass_pipeline_t \<Rightarrow> 'sg \<Rightarrow> nat \<Rightarrow> status" where
  "pass_status pl sg i = fst ((passes pl ! i) (after_passes pl sg i))"

definition validation_status :: "'sg pass_pipeline_t \<Rightarrow> 'sg \<Rightarrow> nat \<Rightarrow> status" where
  "validation_status pl sg i = validator pl (after_passes pl sg (Suc i))"

definition round_ok :: "'sg pass_pipeline_t \<Rightarrow> 'sg \<Rightarrow> nat \<Rightarrow> bool" where
  "round_ok pl sg i = (pass_status pl sg i = success \<and> validation_status pl sg i = success)"

text \<open>Pipelines over a subgraph that is a number.  The validator accepts the numbers
  below 50.  The first pass succeeds, the second succeeds on 1 only; in the second
  pipeline a third pass follows, which fails.\<close>

definition ok_pipeline :: "nat pass_pipeline_t" where
  "ok_pipeline =
     add_pass (\<lambda>sg. (if sg = 1 then success else invalid_shape, sg + 10)) ''second''
       (add_pass (\<lambda>sg. (success, sg + 1)) ''first''
          (pass_pipeline (\<lambda>sg. if sg < 50 then success else invalid_op)))"

definition demo_pipeline :: "nat pass_pipeline_t" where
  "demo_pipeline = add_pass (\<lambda>sg. (unsupported, sg + 100)) ''third'' ok_pipeline"

section \<open>Memory planner (buffer\_schedule.hpp)\<close>

text \<open>
  Modelled from the spec: the tick-based buffer scheduler.  Only the declaration of
  \<^verbatim>\<open>buffer_scheduler_t\<close> and the description of its algorithm are among the sources; its
  \<^verbatim>\<open>operator()\<close> is not.  The model follows that description and section 4.5 of the spec,
  for the tensors defined locally.  Every temporary buffer has a size in bytes, a
  first-access tick (FAT), a last-read tick (LRT), the ticks at which it is written, a
  creation tick and a deletion tick.  In-place pairs are excluded from planning, so the
  buffers handed to the planner are the ones that are not aliased.
\<close>

record temp_buffer =
  buf_size :: nat
  first_access_tick :: nat
  last_read_tick :: nat
  writes :: "nat list"
  creation_tick :: nat
  deletion_tick :: nat

text \<open>
  Modelled from the spec: a storage in use, that is a buffer that was not replaced, with
  the ticks of all the buffers that replaced it so far.
\<close>

record storage =
  storage_size :: nat
  storage_last_read :: nat
  storage_writes :: "nat list"
  storage_creation :: nat
  storage_deletion :: nat

text \<open>
  Modelled from the spec: the conditions 1 and 2 of step 4 of the description, under which
  the current buffer can replace a candidate: \<^verbatim>\<open>cur.FAT > candidate.LRT\<close>,
  \<^verbatim>\<open>cur.FAT >= candidate.creation_tick\<close>, \<^verbatim>\<open>cur.deletion_tick <= candidate.deletion_tick\<close>,
  and no write to the candidate between \<^verbatim>\<open>cur.FAT\<close> and \<^verbatim>\<open>cur.LRT\<close>.
\<close>

definition reusable :: "temp_buffer \<Rightarrow> storage \<Rightarrow> bool" where
  "reusable cur candidate =
     (first_access_tick cur > storage_last_read candidate
      \<and> first_access_tick cur \<ge> storage_creation candidate
      \<and> deletion_tick cur \<le> storage_deletion candidate
      \<and> list_all (\<lambda>w. \<not> (first_access_tick cur \<le> w \<and> w \<le> last_read_tick cur))
            (storage_writes candidate))"

text \<open>Modelled from the spec: the first storage that the current buffer can replace, if
  any.\<close>

fun find_candidate :: "storage list \<Rightarrow> temp_buffer \<Rightarrow> nat option" where
  "find_candidate [] cur = None"
| "find_candidate (candidate # rest) cur =
     (if reusable cur candidate then Some 0
      else map_option Suc (find_candidate rest cur))"

text \<open>
  Modelled from the spec: placing one buffer.  If there is a candidate, the current buffer
  is replaced with it: the candidate is from then on read and written whenever the current
  buffer is, and it is extended if the current buffer is larger (step 5).  If there is
  none, the current buffer is a storage of its own.  The result is the storages
  afterwards and the storage of the buffer.
\<close>

definition place :: "storage list \<Rightarrow> temp_buffer \<Rightarrow> storage list \<times> nat" where
  "place storages cur =
     (case find_candidate storages cur of
        Some j \<Rightarrow>
          (storages[j := (storages ! j)
              \<lparr>storage_size := max (storage_size (storages ! j)) (buf_size cur),
               storage_last_read := max (storage_last_read (storages ! j)) (last_read_tick cur),
               storage_writes := storage_writes (storages ! j) @ writes cur\<rparr>],
           j)
      | None \<Rightarrow>
          (storages @ [\<lparr>storage_size = buf_size cur, storage_last_read = last_read_tick cur,
                        storage_writes = writes cur, storage_creation = creation_tick cur,
                        storage_deletion = deletion_tick cur\<rparr>],
           length storages))"

text \<open>Modelled from the spec: the loop over the buffers in creation order.\<close>

fun schedule :: "storage list \<Rightarrow> temp_buffer list \<Rightarrow> storage list \<times> nat list" where
  "schedule storages [] = (storages, [])"
| "schedule storages (cur # rest) =
     (case place storages cur of
        (storages', j) \<Rightarrow>
          (case schedule storages' rest of
             (storages'', js) \<Rightarrow> (storages'', j # js)))"

text \<open>Modelled from the spec: the storages are laid out one after the other in the
  temporary arena; the offset of storage \<open>j\<close> and the size of the arena.\<close>

definition storage_offset :: "storage list \<Rightarrow> nat \<Rightarrow> nat" where
  "storage_offset storages j = sum_list (map storage_size (take j storages))"

definition arena_size :: "storage list \<Rightarrow> nat" where
  "arena_size storages = sum_list (map storage_size storages)"

text \<open>Modelled from the spec: the memory plan, that is the offset of every buffer and the
  total size of the arena.\<close>

definition memory_plan :: "temp_buffer list \<Rightarrow> nat list \<times> nat" where
  "memory_plan bufs =
     (case schedule [] bufs of
        (storages, js) \<Rightarrow> (map (storage_offset storages) js, arena_size storages))"

text \<open>Three buffers of one function body, which ends at tick 6: the second is first
  accessed at the tick of the last read of the first; the third is first accessed later.
  And the two buffers of the scenario of the spec: sizes 100 and 50, used at the ticks 0 to
  2 and 3 to 5.\<close>

definition demo_buffers :: "temp_buffer list" where
  "demo_buffers =
     [\<lparr>buf_size = 100, first_access_tick = 0, last_read_tick = 3, writes = [0],
       creation_tick = 0, deletion_tick = 6\<rparr>,
      \<lparr>buf_size = 50, first_access_tick = 3, last_read_tick = 5, writes = [3],
       creation_tick = 0, deletion_tick = 6\<rparr>,
      \<lparr>buf_size = 150, first_access_tick = 4, last_read_tick = 5, writes = [4],
       creation_tick = 0, deletion_tick = 6\<rparr>]"

definition scenario_buffers :: "temp_buffer list" where
  "scenario_buffers =
     [\<lparr>buf_size = 100, first_access_tick = 0, last_read_tick = 2, writes = [0],
       creation_tick = 0, deletion_tick = 6\<rparr>,
      \<lparr>buf_size = 50, first_access_tick = 3, last_read_tick = 5, writes = [3],
       creation_tick = 0, deletion_tick = 6\<rparr>]"

text \<open>Storages only grow: in number, in size and in last-read tick.\<close>

definition grows :: "storage list \<Rightarrow> storage list \<Rightarrow> bool" where
  "grows ss ss' =
     (length ss \<le> length ss'
      \<and> (\<forall>k<length ss. storage_size (ss ! k) \<le> storage_size (ss' ! k)
                          \<and> storage_last_read (ss ! k) \<le> storage_last_read (ss' ! k)))"

section \<open>Properties of the layout-id manager\<close>

lemma find_if_le: "find_if P xs \<le> length xs"
  by (induction xs) auto

lemma find_if_holds: "find_if P xs \<noteq> length xs \<Longrightarrow> P (xs ! find_if P xs)"
  by (induction xs) auto

lemma find_if_none: "find_if P xs = length xs \<Longrightarrow> \<forall>x \<in> set xs. \<not> P x"
  by (induction xs) (auto split: if_splits)

lemma find_if_cong: "(\<And>x. x \<in> set xs \<Longrightarrow> P x = Q x) \<Longrightarrow> find_if P xs = find_if Q xs"
  by (induction xs) auto

lemma find_if_append_hit:
  "find_if P xs \<noteq> length xs \<Longrightarrow> find_if P (xs @ ys) = find_if P xs"
  by (induction xs) auto

lemma find_if_append_miss:
  "find_if P xs = length xs \<Longrightarrow> find_if P (xs @ ys) = length xs + find_if P ys"
  by (induction xs) (auto split: if_splits)

lemma find_if_first: "j < find_if P xs \<Longrightarrow> \<not> P (xs ! j)"
proof (induction xs arbitrary: j)
  case Nil
  then show ?case by simp
next
  case (Cons x xs)
  then show ?case by (cases j) (auto split: if_splits)
qed

lemma set_mem_desc_extends: "\<exists>ext. snd (set_mem_desc eq data md) = data @ ext"
  by (simp add: set_mem_desc_def Let_def)

lemma set_mem_descs_extends: "\<exists>ext. set_mem_descs eq data mds = data @ ext"
proof (induction mds arbitrary: data)
  case Nil
  show ?case by simp
next
  case (Cons md mds)
  obtain e1 where e1: "snd (set_mem_desc eq data md) = data @ e1"
    using set_mem_desc_extends [of eq data md] by blast
  obtain e2 where "set_mem_descs eq (data @ e1) mds = (data @ e1) @ e2"
    using Cons.IH [of "data @ e1"] by blast
  then show ?case by (simp add: e1)
qed

text \<open>
  Claim C10.  Let \<^verbatim>\<open>is_mem_desc_equal\<close> be an equivalence relation on descriptors.
  Then \<^verbatim>\<open>set_mem_desc(md)\<close> returns an id \<open>i\<close> and a table such that:
  \<^verbatim>\<open>get_mem_desc(i)\<close> is a stored descriptor equal to \<open>md\<close>, and no descriptor with a smaller
  id is equal to \<open>md\<close>; the table is the old one, extended at its end at most, and it is the
  old one itself when a descriptor equal to \<open>md\<close> was stored before; a call of
  \<^verbatim>\<open>set_mem_desc\<close> with a descriptor equal to \<open>md\<close> at any later time, that is after the
  table was extended in any way, in particular after any sequence of further calls,
  returns the same id \<open>i\<close> and does not grow the table; and \<^verbatim>\<open>get_mem_desc\<close> of an id at or
  beyond the size of the table is the empty optional.
\<close>

theorem layout_id_roundtrip_dedup:
  assumes eqv: "equivp eq"
  shows "\<exists>i data'. set_mem_desc eq data md = (Some i, data')
           \<and> (\<exists>m. get_mem_desc data' i = Some m \<and> eq m md)
           \<and> (\<forall>j<i. \<not> eq (data' ! j) md)
           \<and> (\<exists>ext. data' = data @ ext)
           \<and> ((\<exists>m \<in> set data. eq m md) \<longrightarrow> data' = data)
           \<and> (\<forall>md' ext. eq md md' \<longrightarrow>
                 set_mem_desc eq (data' @ ext) md' = (Some i, data' @ ext))
           \<and> (\<forall>md' mds. eq md md' \<longrightarrow>
                 set_mem_desc eq (set_mem_descs eq data' mds) md'
                   = (Some i, set_mem_descs eq data' mds))
           \<and> (\<forall>j. j \<ge> length data' \<longrightarrow> get_mem_desc data' j = None)"
proof -
  have refl: "\<And>x. eq x x" using eqv by (simp add: equivp_reflp)
  have sym: "\<And>x y. eq x y \<Longrightarrow> eq y x" using eqv by (blast intro: equivp_symp)
  have trans: "\<And>x y z. eq x y \<Longrightarrow> eq y z \<Longrightarrow> eq x z" using eqv by (blast intro: equivp_transp)
  let ?P = "\<lambda>m. eq m md"
  let ?i = "find_if ?P data"
  have same: "\<And>md' xs. eq md md' \<Longrightarrow> find_if (\<lambda>m. eq m md') xs = find_if ?P xs"
    by (rule find_if_cong) (blast intro: sym trans)
  have oob: "\<And>xs. \<forall>j. j \<ge> length xs \<longrightarrow> get_mem_desc xs j = None"
    by (simp add: get_mem_desc_def)
  \<comment> \<open>once the first equal descriptor is at \<open>i\<close> in \<open>d\<close>, every later call finds it there\<close>
  have later: "\<forall>md' ext. eq md md' \<longrightarrow> set_mem_desc eq (d @ ext) md' = (Some (find_if ?P d), d @ ext)"
    if hit: "find_if ?P d \<noteq> length d" for d
  proof (intro allI impI)
    fix md' ext assume e: "eq md md'"
    have lt: "find_if ?P d < length d" using hit find_if_le [of ?P d] by simp
    have "find_if (\<lambda>m. eq m md') (d @ ext) = find_if ?P d"
      by (simp add: same [OF e] find_if_append_hit [OF hit])
    moreover have "find_if ?P d \<noteq> length (d @ ext)" using lt by simp
    ultimately show "set_mem_desc eq (d @ ext) md' = (Some (find_if ?P d), d @ ext)"
      by (simp add: set_mem_desc_def)
  qed
  have seq: "\<forall>md' mds. eq md md' \<longrightarrow>
        set_mem_desc eq (set_mem_descs eq d mds) md' = (Some k, set_mem_descs eq d mds)"
    if "\<forall>md' ext. eq md md' \<longrightarrow> set_mem_desc eq (d @ ext) md' = (Some k, d @ ext)" for d k
  proof (intro allI impI)
    fix md' mds assume e: "eq md md'"
    obtain ext where "set_mem_descs eq d mds = d @ ext"
      using set_mem_descs_extends [of eq d mds] by blast
    then show "set_mem_desc eq (set_mem_descs eq d mds) md' = (Some k, set_mem_descs eq d mds)"
      using that e by simp
  qed
  show ?thesis
  proof (cases "?i = length data")
    case False
    have lt: "?i < length data" using False find_if_le [of ?P data] by simp
    have first: "set_mem_desc eq data md = (Some ?i, data)"
      using False by (simp add: set_mem_desc_def)
    have got: "get_mem_desc data ?i = Some (data ! ?i) \<and> eq (data ! ?i) md"
      using lt find_if_holds [OF False] by (simp add: get_mem_desc_def)
    have least: "\<forall>j<?i. \<not> eq (data ! j) md"
      using find_if_first [of _ ?P data] by blast
    have ext: "\<exists>ext. data = data @ ext" by simp
    show ?thesis
      using first got least ext later [OF False] seq [OF later [OF False]] oob by blast
  next
    case True
    let ?d = "data @ [md]"
    have first: "set_mem_desc eq data md = (Some (length data), ?d)"
      using True by (simp add: set_mem_desc_def Let_def)
    have got: "get_mem_desc ?d (length data) = Some md \<and> eq md md"
      using refl by (simp add: get_mem_desc_def)
    have none: "\<not> (\<exists>m \<in> set data. eq m md)"
      using find_if_none [OF True] by blast
    have least: "\<forall>j<length data. \<not> eq (?d ! j) md"
      using none by (auto simp: nth_append)
    have pos: "find_if ?P ?d = length data"
      using True refl by (simp add: find_if_append_miss)
    then have hit: "find_if ?P ?d \<noteq> length ?d" by simp
    have l: "\<forall>md' ext. eq md md' \<longrightarrow> set_mem_desc eq (?d @ ext) md' = (Some (length data), ?d @ ext)"
      using later [OF hit] by (simp only: pos)
    have ext: "\<exists>ext. ?d = data @ ext" by blast
    show ?thesis
      using first got least ext none l seq [OF l] oob by blast
  qed
qed

text \<open>A table with the descriptors 5 and 7: 9 is new and gets the id 2, also when it is
  set again after 11 was stored; 5 was stored before the last entry and is found at id 0
  without growing the table.\<close>

theorem layout_id_roundtrip_dedup_witness:
  "equivp ((=) :: nat \<Rightarrow> nat \<Rightarrow> bool)
   \<and> set_mem_desc (=) [5, 7 :: nat] 9 = (Some 2, [5, 7, 9])
   \<and> get_mem_desc [5, 7, 9 :: nat] 2 = Some 9
   \<and> set_mem_descs (=) [5, 7, 9 :: nat] [11, 5] = [5, 7, 9, 11]
   \<and> set_mem_desc (=) [5, 7, 9, 11 :: nat] 9 = (Some 2, [5, 7, 9, 11])
   \<and> set_mem_desc (=) [5, 7 :: nat] 5 = (Some 0, [5, 7])
   \<and> get_mem_desc [5, 7, 9 :: nat] 3 = None"
  using layout_id_roundtrip_dedup [of "(=) :: nat \<Rightarrow> nat \<Rightarrow> bool" "[5, 7]" 9]
        layout_id_roundtrip_dedup [of "(=) :: nat \<Rightarrow> nat \<Rightarrow> bool" "[5, 7]" 5]
  by (simp add: set_mem_desc_def get_mem_desc_def identity_equivp)

section \<open>Properties of the validity check\<close>




lemma mset_insert_by [simp]: "mset (insert_by cmp x ys) = add_mset x (mset ys)"
  by (induction ys) auto

lemma mset_sort_by [simp]: "mset (sort_by cmp xs) = mset xs"
  by (induction xs) auto

lemma set_insert_by [simp]: "set (insert_by cmp x ys) = insert x (set ys)"
  by (induction ys) auto






lemma upt_0_3: "[0..<3] = [0, Suc 0, 2]"
  by (simp add: upt_rec)

lemma lt_wrap_valid: "check_logical_tensor_validity lt_wrap"
  by (simp add: check_logical_tensor_validity_def lt_wrap_def stride_less_def Let_def upt_0_3)

section \<open>Properties of the partitioner\<close>

lemma scan_consumers_iff:
  "scan_consumers visit cs b = (b \<or> (\<exists>c \<in> set cs. fst c \<notin> visit))"
  by (induction cs) auto

lemma scan_inputs_fields [simp]:
  "p_ops (scan_inputs g visit vs pimpl) = p_ops pimpl"
  "p_outputs (scan_inputs g visit vs pimpl) = p_outputs pimpl"
  "p_engine_kind (scan_inputs g visit vs pimpl) = p_engine_kind pimpl"
  by (induction vs arbitrary: pimpl) (auto simp: add_input_tensor_def)

lemma scan_outputs_fields [simp]:
  "p_ops (scan_outputs g visit vs pimpl) = p_ops pimpl"
  "p_inputs (scan_outputs g visit vs pimpl) = p_inputs pimpl"
  "p_engine_kind (scan_outputs g visit vs pimpl) = p_engine_kind pimpl"
  by (induction vs arbitrary: pimpl) (auto simp: add_output_tensor_def)

lemma scan_ops_fields [simp]:
  "p_ops (scan_ops g visit ps pimpl) = p_ops pimpl"
  "p_engine_kind (scan_ops g visit ps pimpl) = p_engine_kind pimpl"
  by (induction ps arbitrary: pimpl) auto

lemma scan_inputs_mem:
  "x \<in> set (p_inputs (scan_inputs g visit vs pimpl)) \<longleftrightarrow>
     x \<in> set (p_inputs pimpl)
     \<or> (\<exists>v \<in> set vs. is_partition_input g visit v \<and> x = (v, logical_tensor (value_heap g v)))"
  by (induction vs arbitrary: pimpl) (auto simp: add_input_tensor_def is_partition_input_def)

lemma scan_outputs_mem:
  "x \<in> set (p_outputs (scan_outputs g visit vs pimpl)) \<longleftrightarrow>
     x \<in> set (p_outputs pimpl)
     \<or> (\<exists>v \<in> set vs. is_partition_output g visit v \<and> x = (v, logical_tensor (value_heap g v)))"
  by (induction vs arbitrary: pimpl)
     (auto simp: add_output_tensor_def is_partition_output_def scan_consumers_iff)

lemma scan_ops_inputs_mem:
  "x \<in> set (p_inputs (scan_ops g visit ps pimpl)) \<Longrightarrow>
     x \<in> set (p_inputs pimpl)
     \<or> (\<exists>v. is_partition_input g visit v \<and> x = (v, logical_tensor (value_heap g v)))"
proof (induction ps arbitrary: pimpl)
  case Nil
  then show ?case by simp
next
  case (Cons p ps)
  from Cons.IH [OF Cons.prems [simplified]] show ?case
    by (simp add: scan_inputs_mem) blast
qed

lemma scan_ops_outputs_mem:
  "x \<in> set (p_outputs (scan_ops g visit ps pimpl)) \<Longrightarrow>
     x \<in> set (p_outputs pimpl)
     \<or> (\<exists>v. is_partition_output g visit v \<and> x = (v, logical_tensor (value_heap g v)))"
proof (induction ps arbitrary: pimpl)
  case Nil
  then show ?case by simp
next
  case (Cons p ps)
  from Cons.IH [OF Cons.prems [simplified]] show ?case
    by (simp add: scan_outputs_mem) blast
qed

lemma scan_inputs_cong:
  "value_heap g' = value_heap g \<Longrightarrow> scan_inputs g' visit vs pimpl = scan_inputs g visit vs pimpl"
  by (induction vs arbitrary: pimpl) (auto simp: add_input_tensor_def)

lemma scan_outputs_cong:
  "value_heap g' = value_heap g \<Longrightarrow> scan_outputs g' visit vs pimpl = scan_outputs g visit vs pimpl"
  by (induction vs arbitrary: pimpl) (auto simp: add_output_tensor_def)

lemma scan_ops_cong:
  assumes "same_structure g g'"
  shows "scan_ops g' visit ps pimpl = scan_ops g visit ps pimpl"
proof (induction ps arbitrary: pimpl)
  case Nil
  show ?case by simp
next
  case (Cons p ps)
  have vh: "value_heap g' = value_heap g"
    using assms by (simp add: same_structure_def)
  have io: "inputs (op_heap g' p) = inputs (op_heap g p)" "outputs (op_heap g' p) = outputs (op_heap g p)"
    using assms by (simp_all add: same_structure_def)
  show ?case
    by (simp only: scan_ops.simps io scan_inputs_cong [OF vh] scan_outputs_cong [OF vh] Cons.IH)
qed

lemma scan_match_cong:
  assumes "same_structure g g'"
  shows "scan_match g' pairs = scan_match g pairs"
proof -
  have "new_pimpl g' = new_pimpl g"
    using assms by (simp add: new_pimpl_def same_structure_def)
  then show ?thesis
    by (simp only: scan_match_def scan_ops_cong [OF assms])
qed

lemma accepted_cong:
  assumes "same_structure g g'"
  shows "accepted g' pairs = accepted g pairs"
  by (simp only: accepted_def scan_match_cong [OF assms])

lemma same_structure_refl [simp]: "same_structure g g"
  by (simp add: same_structure_def)

lemma same_structure_trans:
  "same_structure g g' \<Longrightarrow> same_structure g' g'' \<Longrightarrow> same_structure g g''"
  by (simp add: same_structure_def)

lemma claim_ops_eq:
  "claim_ops ps pp g pimpl = (fold (\<lambda>p. set_partition p pp) ps g, pimpl\<lparr>p_ops := p_ops pimpl @ ps\<rparr>)"
  by (induction ps arbitrary: g pimpl) auto

lemma same_structure_set_partition: "same_structure g (set_partition p pp g)"
  by (simp add: same_structure_def set_partition_def)

lemma same_structure_fold:
  "same_structure g (fold (\<lambda>p. set_partition p pp) ps g)"
proof (induction ps arbitrary: g)
  case Nil
  show ?case by simp
next
  case (Cons p ps)
  show ?case
    using same_structure_trans [OF same_structure_set_partition Cons.IH] by simp
qed

lemma partition_impls_fold [simp]:
  "partition_impls (fold (\<lambda>p. set_partition p pp) ps g) = partition_impls g"
  by (induction ps arbitrary: g) (auto simp: set_partition_def)


lemma same_structure_add_partition: "same_structure g (add_partition pimpl g)"
  by (simp add: same_structure_def add_partition_def)

lemma set_partitions_Cons:
  "set_partitions g (pairs # rest) =
     (if accepted g pairs then set_partitions (claim_match g pairs) rest else set_partitions g rest)"
  by (simp add: accepted_def claim_match_def claim_ops_eq Let_def scan_match_def new_pimpl_def)

declare set_partitions.simps(2) [simp del]

lemma same_structure_claim_match: "same_structure g (claim_match g pairs)"
  unfolding claim_match_def
  by (rule same_structure_trans [OF same_structure_fold same_structure_add_partition])

lemma same_structure_set_partitions: "same_structure g (set_partitions g fo)"
proof (induction fo arbitrary: g)
  case Nil
  show ?case by simp
next
  case (Cons pairs rest)
  show ?case
    using Cons.IH [of g] same_structure_trans [OF same_structure_claim_match Cons.IH]
    by (simp only: set_partitions_Cons split: if_splits) auto
qed

lemma partition_impls_set_partitions:
  "partition_impls (set_partitions g fo) =
     partition_impls g @ map (\<lambda>pairs. (scan_match g pairs)\<lparr>p_ops := pairs\<rparr>) (filter (accepted g) fo)"
proof (induction fo arbitrary: g)
  case Nil
  show ?case by simp
next
  case (Cons pairs rest)
  show ?case
  proof (cases "accepted g pairs")
    case False
    then have "set_partitions g (pairs # rest) = set_partitions g rest"
      by (simp only: set_partitions_Cons if_False)
    then show ?thesis
      using False by (simp add: Cons.IH)
  next
    case True
    let ?g1 = "claim_match g pairs"
    have ss: "same_structure g ?g1" by (rule same_structure_claim_match)
    have acc: "accepted ?g1 = accepted g"
      by (rule ext) (rule accepted_cong [OF ss])
    have sm: "\<And>q. scan_match ?g1 q = scan_match g q"
      by (rule scan_match_cong [OF ss])
    have pi: "partition_impls ?g1 = partition_impls g @ [(scan_match g pairs)\<lparr>p_ops := pairs\<rparr>]"
      by (simp add: claim_match_def add_partition_def)
    have "set_partitions g (pairs # rest) = set_partitions ?g1 rest"
      using True by (simp only: set_partitions_Cons if_True)
    then show ?thesis
      using True by (simp add: Cons.IH acc sm pi)
  qed
qed

lemma pairwise_disjoint_Nil [simp]: "pairwise_disjoint []"
  by (simp add: pairwise_disjoint_def)



lemma set_partitions_rejected:
  "\<not> accepted g pairs \<Longrightarrow> set_partitions g (pairs # rest) = set_partitions g rest"
  by (simp only: set_partitions_Cons if_False)



lemma upt_0_2: "[0..<2] = [0, Suc 0]"
  by (simp add: upt_rec)

lemma lt_ok_valid: "check_logical_tensor_validity (lt_ok i)"
  by (simp add: check_logical_tensor_validity_def lt_ok_def stride_less_def Let_def upt_0_2)


lemmas chain_eval =
  accepted_def scan_match_def chain_graph_def new_pimpl_def add_input_tensor_def
  add_output_tensor_def get_inputs_def get_outputs_def check_inputs_outputs_validity_def lt_ok_valid


lemma chain_parts_1: "partition_impls (set_partitions chain_graph [[1, 2], [3]]) =
   [\<lparr>p_engine_kind = 0, p_ops = [1, 2], p_inputs = [(10, lt_ok 10)], p_outputs = [(12, lt_ok 12)]\<rparr>,
    \<lparr>p_engine_kind = 0, p_ops = [3], p_inputs = [(12, lt_ok 12)], p_outputs = [(13, lt_ok 13)]\<rparr>]"
  by (simp add: partition_impls_set_partitions chain_eval)



























lemma value_heap_set_partitions [simp]:
  "value_heap (set_partitions g fo) = value_heap g"
  using same_structure_set_partitions [of g fo] by (simp add: same_structure_def)

lemma new_partition_cases:
  assumes "pimpl \<in> set (drop (length (partition_impls g)) (partition_impls (set_partitions g fo)))"
  obtains pairs where "pairs \<in> set fo" "accepted g pairs" "pimpl = (scan_match g pairs)\<lparr>p_ops := pairs\<rparr>"
  using assms by (auto simp: partition_impls_set_partitions)

text \<open>
  Claim C2.  For every partition that \<^verbatim>\<open>set_partitions\<close> adds to the graph, every recorded
  input value has no producer or a producer outside the partition's ops, and every
  recorded output value has no consumer at all or a consumer outside the partition's ops.
\<close>

theorem set_partitions_boundary:
  assumes "pimpl \<in> set (drop (length (partition_impls g)) (partition_impls (set_partitions g fusion_ops)))"
  shows "(\<forall>v \<in> fst ` set (p_inputs pimpl).
            producer (value_heap (set_partitions g fusion_ops) v) = None
            \<or> (\<exists>p. producer (value_heap (set_partitions g fusion_ops) v) = Some p
                     \<and> p \<notin> set (p_ops pimpl)))
       \<and> (\<forall>v \<in> fst ` set (p_outputs pimpl).
            consumers (value_heap (set_partitions g fusion_ops) v) = []
            \<or> (\<exists>c \<in> set (consumers (value_heap (set_partitions g fusion_ops) v)).
                  fst c \<notin> set (p_ops pimpl)))"
proof -
  from assms obtain pairs where pimpl: "pimpl = (scan_match g pairs)\<lparr>p_ops := pairs\<rparr>"
    by (rule new_partition_cases)
  have ins: "is_partition_input g (set pairs) v" if "v \<in> fst ` set (p_inputs pimpl)" for v
  proof -
    from that obtain lt where "(v, lt) \<in> set (p_inputs (scan_ops g (set pairs) pairs (new_pimpl g)))"
      by (auto simp: pimpl scan_match_def)
    from scan_ops_inputs_mem [OF this] show ?thesis
      by (auto simp: new_pimpl_def)
  qed
  have outs: "is_partition_output g (set pairs) v" if "v \<in> fst ` set (p_outputs pimpl)" for v
  proof -
    from that obtain lt where "(v, lt) \<in> set (p_outputs (scan_ops g (set pairs) pairs (new_pimpl g)))"
      by (auto simp: pimpl scan_match_def)
    from scan_ops_outputs_mem [OF this] show ?thesis
      by (auto simp: new_pimpl_def)
  qed
  have ops: "p_ops pimpl = pairs" by (simp add: pimpl)
  show ?thesis
  proof (intro conjI ballI)
    fix v assume "v \<in> fst ` set (p_inputs pimpl)"
    from ins [OF this] show "producer (value_heap (set_partitions g fusion_ops) v) = None
            \<or> (\<exists>p. producer (value_heap (set_partitions g fusion_ops) v) = Some p
                     \<and> p \<notin> set (p_ops pimpl))"
      by (auto simp: is_partition_input_def ops split: option.splits)
  next
    fix v assume "v \<in> fst ` set (p_outputs pimpl)"
    from outs [OF this] show "consumers (value_heap (set_partitions g fusion_ops) v) = []
            \<or> (\<exists>c \<in> set (consumers (value_heap (set_partitions g fusion_ops) v)).
                  fst c \<notin> set (p_ops pimpl))"
      by (simp add: is_partition_output_def ops)
  qed
qed

text \<open>On the chain, the partition of the match \<open>[1, 2]\<close> has the input 10, which has no
  producer, and the output 12, whose consumer is op 3.\<close>

theorem set_partitions_boundary_witness:
  "partition_impls (set_partitions chain_graph [[1, 2], [3]]) ! 0
     = \<lparr>p_engine_kind = 0, p_ops = [1, 2], p_inputs = [(10, lt_ok 10)], p_outputs = [(12, lt_ok 12)]\<rparr>
   \<and> producer (value_heap (set_partitions chain_graph [[1, 2], [3]]) 10) = None
   \<and> consumers (value_heap (set_partitions chain_graph [[1, 2], [3]]) 12) = [(3, 0)]"
proof -
  let ?p = "\<lparr>p_engine_kind = 0, p_ops = [1, 2], p_inputs = [(10, lt_ok 10)], p_outputs = [(12, lt_ok 12)]\<rparr>"
  have mem: "?p \<in> set (drop (length (partition_impls chain_graph))
                (partition_impls (set_partitions chain_graph [[1, 2], [3]])))"
    by (simp only: chain_parts_1) (simp add: chain_graph_def)
  have nth: "partition_impls (set_partitions chain_graph [[1, 2], [3]]) ! 0 = ?p"
    by (simp only: chain_parts_1) simp
  have v: "producer (value_heap chain_graph 10) = None" "consumers (value_heap chain_graph 12) = [(3, 0)]"
    by (simp_all add: chain_graph_def)
  show ?thesis
    using set_partitions_boundary [OF mem] nth v by (simp only: value_heap_set_partitions)
qed







section \<open>Properties of the graph operations\<close>

lemma set_producers_fields [simp]:
  "op_heap (set_producers vs b g) = op_heap g"
  "ops (set_producers vs b g) = ops g"
  "next_op (set_producers vs b g) = next_op g"
  by (induction vs arbitrary: g) auto

lemma list_all_not_iff: "list_all (\<lambda>p. \<not> P p) xs \<longleftrightarrow> \<not> (\<exists>p \<in> set xs. P p)"
  by (simp add: list_all_iff)

lemma add_op_present:
  "p \<in> set (ops g) \<Longrightarrow> op_id (op_heap g p) = op_id n \<Longrightarrow> add_op R (Some n) g = (success, g)"
  by (auto simp: add_op_def list_all_iff)

lemma push_back_op_present:
  "op_id tmp = i \<Longrightarrow> \<exists>p \<in> set (ops (push_back_op tmp g)). op_id (op_heap (push_back_op tmp g) p) = i"
  by (simp add: push_back_op_def Let_def)

lemma add_op_success_present:
  assumes "add_op R (Some n) g = (success, g')"
  shows "\<exists>p \<in> set (ops g'). op_id (op_heap g' p) = op_id n"
proof (cases "list_all (\<lambda>p. \<not> (op_id (op_heap g p) = op_id n)) (ops g)")
  case False
  then have "g' = g" using assms by (simp add: add_op_def)
  then show ?thesis using False by (auto simp: list_all_iff)
next
  case True
  show ?thesis
  proof (cases "R (kind n)")
    case None
    then have "g' = push_back_op n g" using assms True by (simp add: add_op_def)
    then show ?thesis using push_back_op_present [of n "op_id n" g] by simp
  next
    case (Some opm)
    let ?tmp = "n\<lparr>attrs := set_default_attribute opm n\<rparr>"
    have "g' = push_back_op ?tmp g"
      using assms True Some by (simp add: add_op_def Let_def split: if_splits)
    then show ?thesis using push_back_op_present [of ?tmp "op_id n" g] by simp
  qed
qed

text \<open>
  Claim C7.  If the graph already holds an op with the id of \<open>n\<close>, \<^verbatim>\<open>add_op(n)\<close> returns
  success and leaves the graph, in particular its op list and its ops, as it is; and after
  any successful \<^verbatim>\<open>add_op(n)\<close> a second \<^verbatim>\<open>add_op(n)\<close> is such a call.
\<close>

theorem add_op_idempotent:
  "(p \<in> set (ops g) \<and> op_id (op_heap g p) = op_id n
      \<longrightarrow> add_op get_op_schema (Some n) g = (success, g))
   \<and> (add_op get_op_schema (Some n) g = (success, g')
      \<longrightarrow> add_op get_op_schema (Some n) g' = (success, g'))"
  using add_op_present add_op_success_present by blast

text \<open>The chain already has an op with id 2; adding an op with id 7 twice adds it once.\<close>

theorem add_op_idempotent_witness:
  "2 \<in> set (ops chain_graph) \<and> op_id (op_heap chain_graph 2) = 2
   \<and> add_op no_schemas (Some \<lparr>op_id = 2, kind = 5, inputs = [], outputs = [], attrs = [], partition = None\<rparr>)
        chain_graph = (success, chain_graph)
   \<and> ops (snd (add_op no_schemas
        (Some \<lparr>op_id = 7, kind = 5, inputs = [13], outputs = [14], attrs = [], partition = None\<rparr>)
        chain_graph)) = [1, 2, 3, 4]
   \<and> add_op no_schemas
        (Some \<lparr>op_id = 7, kind = 5, inputs = [13], outputs = [14], attrs = [], partition = None\<rparr>)
        (push_back_op \<lparr>op_id = 7, kind = 5, inputs = [13], outputs = [14], attrs = [], partition = None\<rparr>
           chain_graph)
      = (success,
         push_back_op \<lparr>op_id = 7, kind = 5, inputs = [13], outputs = [14], attrs = [], partition = None\<rparr>
           chain_graph)"
proof -
  let ?n2 = "\<lparr>op_id = 2, kind = 5, inputs = [], outputs = [], attrs = [], partition = None\<rparr>"
  let ?n7 = "\<lparr>op_id = 7, kind = 5, inputs = [13], outputs = [14], attrs = [], partition = None\<rparr>"
  have h: "2 \<in> set (ops chain_graph) \<and> op_id (op_heap chain_graph 2) = op_id ?n2"
    by (simp add: chain_graph_def)
  have first: "add_op no_schemas (Some ?n7) chain_graph = (success, push_back_op ?n7 chain_graph)"
    by (simp add: add_op_def no_schemas_def chain_graph_def)
  have ops: "ops (push_back_op ?n7 chain_graph) = [1, 2, 3, 4]"
    by (simp add: push_back_op_def Let_def chain_graph_def)
  show ?thesis
    using add_op_idempotent [of 2 chain_graph ?n2 no_schemas]
          add_op_idempotent [of 2 chain_graph ?n7 no_schemas "push_back_op ?n7 chain_graph"]
          h first ops
    by simp
qed

lemma check_inputs_shape_iff:
  "check_inputs_shape U g vs \<longleftrightarrow> \<not> (\<exists>v \<in> set vs. U (logical_tensor (value_heap g v)))"
  by (induction vs) auto

lemma topo_order_visit_append:
  "topo_order_visit pre func s = (success, s1) \<Longrightarrow>
     topo_order_visit (pre @ rest) func s = topo_order_visit rest func s1"
  by (induction pre arbitrary: s) (auto split: prod.splits if_splits)

lemma set_logical_tensors_differ:
  "only_descriptors_differ g (set_logical_tensors vs lts g) vs"
proof (induction vs lts g rule: set_logical_tensors.induct)
  case (1 v vs lt lts g)
  then show ?case
    by (auto simp: only_descriptors_differ_def)
qed (auto simp: only_descriptors_differ_def)

lemma infer_shape_op_cases:
  "infer_shape_op R p g = (ret, g') \<Longrightarrow>
     (ret = invalid_op \<and> g' = g \<and> R (kind (op_heap g p)) = None)
     \<or> (ret = invalid_shape \<and> g' = g \<and> R (kind (op_heap g p)) \<noteq> None)
     \<or> (ret = success \<and> R (kind (op_heap g p)) \<noteq> None
          \<and> only_descriptors_differ g g' (outputs (op_heap g p)))"
  by (auto simp: infer_shape_op_def Let_def set_logical_tensors_differ
           split: option.splits prod.splits if_splits)

lemma infer_shape_unknown_input:
  assumes "\<exists>v \<in> set (get_input_values g). U (logical_tensor (value_heap g v))"
  shows "infer_shape U T R g = (invalid_shape, g)"
  using assms by (simp add: infer_shape_def check_inputs_shape_iff)

lemma infer_shape_first_failure:
  assumes known: "\<not> (\<exists>v \<in> set (get_input_values g). U (logical_tensor (value_heap g v)))"
    and order: "T g (get_output_ops g) = pre @ p # post"
    and pre: "topo_order_visit pre (infer_shape_op R) g = (success, g1)"
    and fail: "infer_shape_op R p g1 = (ret, g2)" "ret \<noteq> success"
  shows "infer_shape U T R g = (ret, g2)"
proof -
  have "infer_shape U T R g = topo_order_visit (pre @ p # post) (infer_shape_op R) g"
    using known order by (simp add: infer_shape_def check_inputs_shape_iff)
  also have "\<dots> = topo_order_visit (p # post) (infer_shape_op R) g1"
    by (rule topo_order_visit_append [OF pre])
  also have "\<dots> = (ret, g2)"
    using fail by simp
  finally show ?thesis .
qed

lemma infer_shape_op_no_schema:
  "R (kind (op_heap g p)) = None \<Longrightarrow> infer_shape_op R p g = (invalid_op, g)"
  by (simp add: infer_shape_op_def Let_def)

lemma infer_shape_op_schema_fails:
  "R (kind (op_heap g p)) = Some opm \<Longrightarrow>
   fst (shape_infer opm (op_heap g p)
          (map (\<lambda>v. logical_tensor (value_heap g v)) (inputs (op_heap g p)))
          (map (\<lambda>v. logical_tensor (value_heap g v)) (outputs (op_heap g p)))) \<noteq> success \<Longrightarrow>
   infer_shape_op R p g = (invalid_shape, g)"
  by (auto simp: infer_shape_op_def Let_def split: prod.splits)

text \<open>
  Claim C8 (as amended).  \<^verbatim>\<open>infer_shape\<close> returns invalid\_shape, and leaves the graph as
  it is, whenever some graph input value has an unknown shape.  When no input has, and the
  ops visited before \<open>p\<close> succeeded: if \<open>p\<close> has no registered schema the result is
  invalid\_op (not invalid\_shape), and if the shape inference of its schema does not
  succeed the result is invalid\_shape.  The step for one op leaves the graph as it is
  unless it succeeds, and then changes nothing but the descriptors of the output values of
  that op.
\<close>

theorem infer_shape_failure_modes:
  "((\<exists>v \<in> set (get_input_values g). is_shape_unknown (logical_tensor (value_heap g v)))
      \<longrightarrow> infer_shape is_shape_unknown topo_sort get_op_schema g = (invalid_shape, g))
   \<and> (\<not> (\<exists>v \<in> set (get_input_values g). is_shape_unknown (logical_tensor (value_heap g v)))
        \<and> topo_sort g (get_output_ops g) = pre @ p # post
        \<and> topo_order_visit pre (infer_shape_op get_op_schema) g = (success, g1)
      \<longrightarrow> (get_op_schema (kind (op_heap g1 p)) = None
             \<longrightarrow> infer_shape is_shape_unknown topo_sort get_op_schema g = (invalid_op, g1))
          \<and> (get_op_schema (kind (op_heap g1 p)) = Some opm
               \<and> fst (shape_infer opm (op_heap g1 p)
                        (map (\<lambda>v. logical_tensor (value_heap g1 v)) (inputs (op_heap g1 p)))
                        (map (\<lambda>v. logical_tensor (value_heap g1 v)) (outputs (op_heap g1 p))))
                   \<noteq> success
             \<longrightarrow> infer_shape is_shape_unknown topo_sort get_op_schema g = (invalid_shape, g1)))
   \<and> (infer_shape_op get_op_schema q g = (ret, g')
      \<longrightarrow> (ret \<noteq> success \<longrightarrow> g' = g)
          \<and> only_descriptors_differ g g' (outputs (op_heap g q)))"
proof (intro conjI impI)
  assume "\<exists>v \<in> set (get_input_values g). is_shape_unknown (logical_tensor (value_heap g v))"
  then show "infer_shape is_shape_unknown topo_sort get_op_schema g = (invalid_shape, g)"
    by (rule infer_shape_unknown_input)
next
  assume a: "\<not> (\<exists>v \<in> set (get_input_values g). is_shape_unknown (logical_tensor (value_heap g v)))
        \<and> topo_sort g (get_output_ops g) = pre @ p # post
        \<and> topo_order_visit pre (infer_shape_op get_op_schema) g = (success, g1)"
    and n: "get_op_schema (kind (op_heap g1 p)) = None"
  show "infer_shape is_shape_unknown topo_sort get_op_schema g = (invalid_op, g1)"
    using a infer_shape_first_failure [OF _ _ _ infer_shape_op_no_schema [of get_op_schema g1 p, OF n]]
    by blast
next
  assume a: "\<not> (\<exists>v \<in> set (get_input_values g). is_shape_unknown (logical_tensor (value_heap g v)))
        \<and> topo_sort g (get_output_ops g) = pre @ p # post
        \<and> topo_order_visit pre (infer_shape_op get_op_schema) g = (success, g1)"
    and s: "get_op_schema (kind (op_heap g1 p)) = Some opm
               \<and> fst (shape_infer opm (op_heap g1 p)
                        (map (\<lambda>v. logical_tensor (value_heap g1 v)) (inputs (op_heap g1 p)))
                        (map (\<lambda>v. logical_tensor (value_heap g1 v)) (outputs (op_heap g1 p))))
                   \<noteq> success"
  have "infer_shape_op get_op_schema p g1 = (invalid_shape, g1)"
    using s infer_shape_op_schema_fails by blast
  from infer_shape_first_failure [OF _ _ _ this] a
  show "infer_shape is_shape_unknown topo_sort get_op_schema g = (invalid_shape, g1)"
    by blast
next
  assume "infer_shape_op get_op_schema q g = (ret, g')" "ret \<noteq> success"
  then show "g' = g"
    using infer_shape_op_cases by blast
next
  assume a: "infer_shape_op get_op_schema q g = (ret, g')"
  have "only_descriptors_differ g g (outputs (op_heap g q))"
    by (simp add: only_descriptors_differ_def)
  then show "only_descriptors_differ g g' (outputs (op_heap g q))"
    using infer_shape_op_cases [OF a] by blast
qed

lemma chain_inputs: "get_input_values chain_graph = [10]"
  by (simp add: get_input_values_def chain_graph_def)

lemma unknown_inputs: "get_input_values unknown_graph = [10]"
  by (simp add: get_input_values_def unknown_graph_def chain_graph_def)

text \<open>The three failure modes on the chain.\<close>

theorem infer_shape_failure_modes_witness:
  "infer_shape shape_unknown chain_order no_schemas unknown_graph = (invalid_shape, unknown_graph)
   \<and> infer_shape shape_unknown chain_order no_schemas chain_graph = (invalid_op, chain_graph)
   \<and> infer_shape shape_unknown chain_order failing_schemas chain_graph = (invalid_shape, chain_graph)
   \<and> infer_shape_op no_schemas 1 chain_graph = (invalid_op, chain_graph)"
proof -
  have u: "\<exists>v \<in> set (get_input_values unknown_graph).
             shape_unknown (logical_tensor (value_heap unknown_graph v))"
    by (simp add: unknown_inputs) (simp add: unknown_graph_def shape_unknown_def)
  have k: "\<not> (\<exists>v \<in> set (get_input_values chain_graph).
             shape_unknown (logical_tensor (value_heap chain_graph v)))"
    by (simp add: chain_inputs) (simp add: chain_graph_def shape_unknown_def lt_ok_def)
  have o: "chain_order chain_graph (get_output_ops chain_graph) = [] @ 1 # [2, 3]"
    by (simp add: chain_order_def)
  have v: "topo_order_visit [] (infer_shape_op R) chain_graph = (success, chain_graph)" for R
    by simp
  have n: "no_schemas (kind (op_heap chain_graph 1)) = None"
    by (simp add: no_schemas_def)
  let ?opm = "\<lparr>set_default_attribute = attrs, verify = (\<lambda>n. True),
               shape_infer = (\<lambda>n ins outs. (unsupported, outs))\<rparr>"
  have f: "failing_schemas (kind (op_heap chain_graph 1)) = Some ?opm
           \<and> fst (shape_infer ?opm (op_heap chain_graph 1)
                (map (\<lambda>v. logical_tensor (value_heap chain_graph v)) (inputs (op_heap chain_graph 1)))
                (map (\<lambda>v. logical_tensor (value_heap chain_graph v)) (outputs (op_heap chain_graph 1))))
              \<noteq> success"
    by (simp add: failing_schemas_def)
  have step: "infer_shape_op no_schemas 1 chain_graph = (invalid_op, chain_graph)"
    by (rule infer_shape_op_no_schema [of no_schemas chain_graph 1, OF n])
  show ?thesis
    using infer_shape_failure_modes [where g = unknown_graph and is_shape_unknown = shape_unknown
             and topo_sort = chain_order and get_op_schema = no_schemas]
          infer_shape_failure_modes [where g = chain_graph and is_shape_unknown = shape_unknown
             and topo_sort = chain_order and get_op_schema = no_schemas
             and pre = "[]" and p = 1 and post = "[2, 3]" and ?g1.0 = chain_graph]
          infer_shape_failure_modes [where g = chain_graph and is_shape_unknown = shape_unknown
             and topo_sort = chain_order and get_op_schema = failing_schemas
             and pre = "[]" and p = 1 and post = "[2, 3]" and ?g1.0 = chain_graph and opm = ?opm]
          u k o v n f step
    by blast
qed

text \<open>
  Claim C8 as stated fails for an op without a schema: on the chain, whose input value has
  a known shape, and with a registry without schemas, the result is invalid\_op.
\<close>

theorem infer_shape_no_schema_counterexample:
  "shape_unknown (logical_tensor (value_heap chain_graph 10)) = False
   \<and> get_input_values chain_graph = [10]
   \<and> no_schemas (kind (op_heap chain_graph 1)) = None
   \<and> fst (infer_shape shape_unknown chain_order no_schemas chain_graph) = invalid_op
   \<and> fst (infer_shape shape_unknown chain_order no_schemas chain_graph) \<noteq> invalid_shape"
  by (simp add: infer_shape_def chain_inputs chain_order_def infer_shape_op_def no_schemas_def)
     (simp add: chain_graph_def shape_unknown_def lt_ok_def)

section \<open>Properties of the pass pipeline\<close>

declare run_from.simps [simp del]

lemma full_rounds_step: "i < k \<Longrightarrow> full_rounds i k = full_round i @ full_rounds (Suc i) k"
  by (simp add: full_rounds_def upt_conv_Cons)

lemma full_rounds_empty [simp]: "full_rounds k k = []"
  by (simp add: full_rounds_def)

text \<open>One turn of the loop, from the subgraph that the passes before \<open>i\<close> left.\<close>

lemma run_from_end:
  "length (passes pl) \<le> i \<Longrightarrow> run_from pl i sg0 log = (success, sg0, log)"
  by (subst run_from.simps) simp

lemma run_from_pass_fails:
  assumes "i < length (passes pl)" "pass_status pl sg i \<noteq> success"
  shows "run_from pl i (after_passes pl sg i) log =
           (pass_status pl sg i, after_passes pl sg (Suc i),
            log @ [pass_called i (pass_status pl sg i)])"
proof -
  obtain ret sg' where p: "(passes pl ! i) (after_passes pl sg i) = (ret, sg')"
    by (cases "(passes pl ! i) (after_passes pl sg i)")
  show ?thesis
    using assms run_from.simps [of pl i "after_passes pl sg i" log]
    by (simp add: p pass_status_def)
qed

lemma run_from_validation_fails:
  assumes "i < length (passes pl)" "pass_status pl sg i = success"
    "validation_status pl sg i \<noteq> success"
  shows "run_from pl i (after_passes pl sg i) log =
           (validation_status pl sg i, after_passes pl sg (Suc i),
            log @ [pass_called i success, visualizer_called i,
                   validator_called i (validation_status pl sg i)])"
proof -
  obtain ret sg' where p: "(passes pl ! i) (after_passes pl sg i) = (ret, sg')"
    by (cases "(passes pl ! i) (after_passes pl sg i)")
  show ?thesis
    using assms run_from.simps [of pl i "after_passes pl sg i" log]
    by (simp add: p pass_status_def validation_status_def Let_def)
qed

lemma run_from_round_ok:
  assumes "i < length (passes pl)" "round_ok pl sg i"
  shows "run_from pl i (after_passes pl sg i) log =
           run_from pl (Suc i) (after_passes pl sg (Suc i)) (log @ full_round i)"
proof -
  obtain ret sg' where p: "(passes pl ! i) (after_passes pl sg i) = (ret, sg')"
    by (cases "(passes pl ! i) (after_passes pl sg i)")
  show ?thesis
    using assms run_from.simps [of pl i "after_passes pl sg i" log]
    by (simp add: p round_ok_def pass_status_def validation_status_def full_round_def Let_def)
qed

text \<open>All rounds from \<open>i\<close> on are fine.\<close>

lemma run_from_all_ok:
  assumes "\<forall>j. i \<le> j \<and> j < length (passes pl) \<longrightarrow> round_ok pl sg j"
    and "i \<le> length (passes pl)"
  shows "run_from pl i (after_passes pl sg i) log =
           (success, after_passes pl sg (length (passes pl)),
            log @ full_rounds i (length (passes pl)))"
  using assms
proof (induction "length (passes pl) - i" arbitrary: i log)
  case 0
  then have "i = length (passes pl)" by simp
  then show ?case by (simp add: run_from_end)
next
  case (Suc d)
  then have lt: "i < length (passes pl)" by simp
  have ok: "round_ok pl sg i" using Suc.prems(1) lt by simp
  have "run_from pl (Suc i) (after_passes pl sg (Suc i)) (log @ full_round i) =
          (success, after_passes pl sg (length (passes pl)),
           (log @ full_round i) @ full_rounds (Suc i) (length (passes pl)))"
    using Suc.hyps(2) Suc.prems(1) lt by (intro Suc.hyps(1)) auto
  then show ?case
    by (simp add: run_from_round_ok [OF lt ok] full_rounds_step [OF lt])
qed

text \<open>The rounds from \<open>i\<close> up to \<open>k\<close> are fine and round \<open>k\<close> is not.\<close>

lemma run_from_first_failure:
  assumes "\<forall>j. i \<le> j \<and> j < k \<longrightarrow> round_ok pl sg j"
    and "i \<le> k" "k < length (passes pl)" "\<not> round_ok pl sg k"
  shows "run_from pl i (after_passes pl sg i) log =
           (if pass_status pl sg k \<noteq> success
            then (pass_status pl sg k, after_passes pl sg (Suc k),
                  log @ full_rounds i k @ [pass_called k (pass_status pl sg k)])
            else (validation_status pl sg k, after_passes pl sg (Suc k),
                  log @ full_rounds i k @ [pass_called k success, visualizer_called k,
                                           validator_called k (validation_status pl sg k)]))"
  using assms
proof (induction "k - i" arbitrary: i log)
  case 0
  then have ik: "i = k" by simp
  show ?case
  proof (cases "pass_status pl sg k = success")
    case False
    then show ?thesis
      using run_from_pass_fails [OF "0.prems"(3) False] by (simp add: ik)
  next
    case True
    then have "validation_status pl sg k \<noteq> success"
      using "0.prems"(4) by (simp add: round_ok_def)
    then show ?thesis
      using run_from_validation_fails [OF "0.prems"(3) True] True by (simp add: ik)
  qed
next
  case (Suc d)
  then have lt: "i < k" by simp
  then have il: "i < length (passes pl)" using Suc.prems(3) by simp
  have ok: "round_ok pl sg i" using Suc.prems(1) lt by simp
  have step: "run_from pl i (after_passes pl sg i) log =
          run_from pl (Suc i) (after_passes pl sg (Suc i)) (log @ full_round i)"
    by (rule run_from_round_ok [OF il ok])
  have ih: "run_from pl (Suc i) (after_passes pl sg (Suc i)) (log @ full_round i) =
           (if pass_status pl sg k \<noteq> success
            then (pass_status pl sg k, after_passes pl sg (Suc k),
                  (log @ full_round i) @ full_rounds (Suc i) k @ [pass_called k (pass_status pl sg k)])
            else (validation_status pl sg k, after_passes pl sg (Suc k),
                  (log @ full_round i) @ full_rounds (Suc i) k
                    @ [pass_called k success, visualizer_called k,
                       validator_called k (validation_status pl sg k)]))"
    using Suc.hyps(2) Suc.prems lt by (intro Suc.hyps(1)) auto
  show ?case
    by (simp only: step ih) (simp add: full_rounds_step [OF lt])
qed

text \<open>
  Claim C4.  \<^verbatim>\<open>add_pass\<close> appends the pass, so the passes are indexed in the order they
  were added.  \<^verbatim>\<open>run\<close> applies them in that order, each to the subgraph that the passes
  before it left, and validates the subgraph after each of them.  The result is success
  if and only if every pass and every validation after a pass return success; then all
  passes were applied, and the calls were pass, dump and validation for every pass in
  turn.  Otherwise, with \<open>k\<close> the first pass such that the pass or the validation after it
  does not return success: the result is the status of pass \<open>k\<close> if that is not success,
  and the status of the validation after it otherwise; the subgraph is the one that pass
  \<open>k\<close> left; and the calls were pass, dump and validation for the passes before \<open>k\<close>, then
  pass \<open>k\<close>, and, if pass \<open>k\<close> returned success, the dump and the validation after it, and
  nothing more.
\<close>

theorem pass_pipeline_run_order:
  "passes (add_pass apass name pl) = passes pl @ [apass]
   \<and> (fst (run pl sg) = success \<longleftrightarrow> (\<forall>i<length (passes pl). round_ok pl sg i))
   \<and> ((\<forall>i<length (passes pl). round_ok pl sg i) \<longrightarrow>
         run pl sg = (success, after_passes pl sg (length (passes pl)),
                      full_rounds 0 (length (passes pl))))
   \<and> (\<forall>k<length (passes pl). (\<forall>i<k. round_ok pl sg i) \<and> \<not> round_ok pl sg k \<longrightarrow>
         (pass_status pl sg k \<noteq> success \<longrightarrow>
            run pl sg = (pass_status pl sg k, after_passes pl sg (Suc k),
                         full_rounds 0 k @ [pass_called k (pass_status pl sg k)]))
         \<and> (pass_status pl sg k = success \<longrightarrow>
            validation_status pl sg k \<noteq> success
            \<and> run pl sg = (validation_status pl sg k, after_passes pl sg (Suc k),
                           full_rounds 0 k @ [pass_called k success, visualizer_called k,
                                              validator_called k (validation_status pl sg k)])))"
proof -
  let ?n = "length (passes pl)"
  have add: "passes (add_pass apass name pl) = passes pl @ [apass]"
    by (simp add: add_pass_def)
  have all_ok: "run pl sg = (success, after_passes pl sg ?n, full_rounds 0 ?n)"
    if "\<forall>i<?n. round_ok pl sg i"
    using run_from_all_ok [of 0 pl sg "[]"] that by (simp add: run_def)
  have fails: "run pl sg =
           (if pass_status pl sg k \<noteq> success
            then (pass_status pl sg k, after_passes pl sg (Suc k),
                  full_rounds 0 k @ [pass_called k (pass_status pl sg k)])
            else (validation_status pl sg k, after_passes pl sg (Suc k),
                  full_rounds 0 k @ [pass_called k success, visualizer_called k,
                                     validator_called k (validation_status pl sg k)]))"
    if "k < ?n" "\<forall>i<k. round_ok pl sg i" "\<not> round_ok pl sg k" for k
    using run_from_first_failure [of 0 k pl sg "[]"] that by (simp add: run_def)
  have iff: "fst (run pl sg) = success \<longleftrightarrow> (\<forall>i<?n. round_ok pl sg i)"
  proof
    assume s: "fst (run pl sg) = success"
    show "\<forall>i<?n. round_ok pl sg i"
    proof (rule ccontr)
      assume "\<not> (\<forall>i<?n. round_ok pl sg i)"
      then have ex: "\<exists>k. k < ?n \<and> \<not> round_ok pl sg k" by blast
      define k where "k = (LEAST k. k < ?n \<and> \<not> round_ok pl sg k)"
      have k: "k < ?n \<and> \<not> round_ok pl sg k"
        unfolding k_def using ex by (rule LeastI_ex)
      have before: "\<forall>i<k. round_ok pl sg i"
      proof (intro allI impI)
        fix i assume "i < k"
        then have "\<not> (i < ?n \<and> \<not> round_ok pl sg i)"
          unfolding k_def by (rule not_less_Least)
        then show "round_ok pl sg i" using \<open>i < k\<close> k by simp
      qed
      have "fst (run pl sg) \<noteq> success"
        using fails [OF _ before] k by (auto simp: round_ok_def)
      then show False using s by simp
    qed
  next
    assume "\<forall>i<?n. round_ok pl sg i"
    then show "fst (run pl sg) = success" using all_ok by simp
  qed
  have first: "\<forall>k<?n. (\<forall>i<k. round_ok pl sg i) \<and> \<not> round_ok pl sg k \<longrightarrow>
         (pass_status pl sg k \<noteq> success \<longrightarrow>
            run pl sg = (pass_status pl sg k, after_passes pl sg (Suc k),
                         full_rounds 0 k @ [pass_called k (pass_status pl sg k)]))
         \<and> (pass_status pl sg k = success \<longrightarrow>
            validation_status pl sg k \<noteq> success
            \<and> run pl sg = (validation_status pl sg k, after_passes pl sg (Suc k),
                           full_rounds 0 k @ [pass_called k success, visualizer_called k,
                                              validator_called k (validation_status pl sg k)]))"
  proof (intro allI impI conjI)
    fix k assume k: "k < ?n" and h: "(\<forall>i<k. round_ok pl sg i) \<and> \<not> round_ok pl sg k"
    { assume "pass_status pl sg k \<noteq> success"
      then show "run pl sg = (pass_status pl sg k, after_passes pl sg (Suc k),
                         full_rounds 0 k @ [pass_called k (pass_status pl sg k)])"
        using fails [OF k] h by simp }
    { assume p: "pass_status pl sg k = success"
      then show "validation_status pl sg k \<noteq> success"
        using h by (simp add: round_ok_def)
      show "run pl sg = (validation_status pl sg k, after_passes pl sg (Suc k),
                           full_rounds 0 k @ [pass_called k success, visualizer_called k,
                                              validator_called k (validation_status pl sg k)])"
        using fails [OF k] h p by simp }
  qed
  show ?thesis using add iff all_ok first by blast
qed

lemma upt_0_2': "[0..<2] = [0, Suc 0]"
  by (simp add: upt_rec)

lemmas pipeline_eval =
  ok_pipeline_def demo_pipeline_def add_pass_def pass_pipeline_def round_ok_def
  pass_status_def validation_status_def

text \<open>
  The pipeline of two passes succeeds on 0 and leaves 11.  In the pipeline of three passes
  the third pass fails on what the first two left, and its status is the result.  On 49
  the first pass succeeds and the validation after it fails; its status is the result, and
  no further pass is applied to the 50 that the first pass left.
\<close>

theorem pass_pipeline_run_order_witness:
  "run ok_pipeline 0 = (success, 11,
      [pass_called 0 success, visualizer_called 0, validator_called 0 success,
       pass_called 1 success, visualizer_called 1, validator_called 1 success])
   \<and> run demo_pipeline 0 = (unsupported, 111,
      [pass_called 0 success, visualizer_called 0, validator_called 0 success,
       pass_called 1 success, visualizer_called 1, validator_called 1 success,
       pass_called 2 unsupported])
   \<and> run demo_pipeline 49 = (invalid_op, 50,
      [pass_called 0 success, visualizer_called 0, validator_called 0 invalid_op])"
proof -
  have n2: "length (passes ok_pipeline) = 2" and n3: "length (passes demo_pipeline) = 3"
    by (simp_all add: pipeline_eval)
  have a0: "after_passes ok_pipeline 0 (Suc 0) = 1" "after_passes ok_pipeline 0 2 = 11"
    by (simp_all add: pipeline_eval numeral_2_eq_2)
  have ok2: "\<forall>i<length (passes ok_pipeline). round_ok ok_pipeline 0 i"
    by (simp add: n2 less_Suc_eq numeral_2_eq_2) (simp add: pipeline_eval)
  have d0: "after_passes demo_pipeline 0 (Suc 0) = 1" "after_passes demo_pipeline 0 2 = 11"
    "after_passes demo_pipeline 0 3 = 111"
    by (simp_all add: pipeline_eval numeral_2_eq_2 numeral_3_eq_3)
  have d_ok: "(\<forall>i<2. round_ok demo_pipeline 0 i) \<and> \<not> round_ok demo_pipeline 0 2"
    by (simp add: less_Suc_eq numeral_2_eq_2) (simp add: pipeline_eval)
  have d_st: "pass_status demo_pipeline 0 2 = unsupported"
    by (simp add: pipeline_eval numeral_2_eq_2)
  have e_ok: "(\<forall>i<0. round_ok demo_pipeline 49 i) \<and> \<not> round_ok demo_pipeline 49 0"
    by (simp add: pipeline_eval)
  have e_st: "pass_status demo_pipeline 49 0 = success"
    "validation_status demo_pipeline 49 0 = invalid_op"
    "after_passes demo_pipeline 49 (Suc 0) = 50"
    by (simp_all add: pipeline_eval)
  have r2: "full_rounds 0 2 = [pass_called 0 success, visualizer_called 0, validator_called 0 success,
       pass_called 1 success, visualizer_called 1, validator_called 1 success]"
    by (simp add: full_rounds_def full_round_def upt_0_2')
  have c1: "run ok_pipeline 0 = (success, after_passes ok_pipeline 0 (length (passes ok_pipeline)),
                      full_rounds 0 (length (passes ok_pipeline)))"
    using pass_pipeline_run_order [where pl = ok_pipeline and sg = 0,
            THEN conjunct2, THEN conjunct2, THEN conjunct1] ok2 by blast
  have c2: "run demo_pipeline 0 = (pass_status demo_pipeline 0 2, after_passes demo_pipeline 0 (Suc 2),
                         full_rounds 0 2 @ [pass_called 2 (pass_status demo_pipeline 0 2)])"
    using pass_pipeline_run_order [where pl = demo_pipeline and sg = 0,
            THEN conjunct2, THEN conjunct2, THEN conjunct2, rule_format, of 2] d_ok d_st n3
    by simp
  have c3: "run demo_pipeline 49 = (validation_status demo_pipeline 49 0,
                         after_passes demo_pipeline 49 (Suc 0),
                         full_rounds 0 0 @ [pass_called 0 success, visualizer_called 0,
                              validator_called 0 (validation_status demo_pipeline 49 0)])"
    using pass_pipeline_run_order [where pl = demo_pipeline and sg = 49,
            THEN conjunct2, THEN conjunct2, THEN conjunct2, rule_format, of 0] e_ok e_st n3
    by simp
  show ?thesis
    by (simp only: c1 c2 c3 n2 a0 d0 d_st e_st r2 full_rounds_empty) (simp add: a0 d0 e_st)
qed

section \<open>Properties of the memory planner\<close>

lemma find_candidate_Some:
  "find_candidate ss cur = Some j \<Longrightarrow>
     j < length ss \<and> storage_last_read (ss ! j) < first_access_tick cur"
  by (induction ss arbitrary: j) (auto simp: reusable_def split: if_splits)

lemma grows_refl [simp]: "grows ss ss"
  by (simp add: grows_def)

lemma grows_trans: "grows a b \<Longrightarrow> grows b c \<Longrightarrow> grows a c"
  unfolding grows_def by (meson le_trans less_le_trans)

lemma place_grows: "place ss cur = (ss', j) \<Longrightarrow> grows ss ss'"
  by (auto simp: place_def grows_def nth_list_update nth_append
           split: option.splits dest: find_candidate_Some)

lemma place_holds:
  "place ss cur = (ss', j) \<Longrightarrow>
     j < length ss' \<and> buf_size cur \<le> storage_size (ss' ! j)
     \<and> last_read_tick cur \<le> storage_last_read (ss' ! j)"
  by (auto simp: place_def split: option.splits dest: find_candidate_Some)

lemma place_reuse:
  "place ss cur = (ss', j) \<Longrightarrow> j < length ss \<Longrightarrow>
     storage_last_read (ss ! j) < first_access_tick cur"
  by (auto simp: place_def split: option.splits dest: find_candidate_Some)

lemma schedule_grows: "schedule ss bufs = (ss', js) \<Longrightarrow> grows ss ss'"
proof (induction bufs arbitrary: ss js)
  case Nil
  then show ?case by simp
next
  case (Cons cur rest)
  from Cons.prems obtain s1 j js' where p: "place ss cur = (s1, j)"
    and r: "schedule s1 rest = (ss', js')"
    by (auto split: prod.splits)
  show ?case
    by (rule grows_trans [OF place_grows [OF p] Cons.IH [OF r]])
qed

lemma schedule_length: "schedule ss bufs = (ss', js) \<Longrightarrow> length js = length bufs"
  by (induction bufs arbitrary: ss js) (auto split: prod.splits)

lemma schedule_holds:
  "schedule ss bufs = (ss', js) \<Longrightarrow> i < length bufs \<Longrightarrow>
     js ! i < length ss' \<and> buf_size (bufs ! i) \<le> storage_size (ss' ! (js ! i))"
proof (induction bufs arbitrary: ss js i)
  case Nil
  then show ?case by simp
next
  case (Cons cur rest)
  from Cons.prems(1) obtain s1 j js' where p: "place ss cur = (s1, j)"
    and r: "schedule s1 rest = (ss', js')" and eq: "js = j # js'"
    by (auto split: prod.splits)
  show ?case
  proof (cases i)
    case 0
    have g: "grows s1 ss'" by (rule schedule_grows [OF r])
    from place_holds [OF p] g show ?thesis
      unfolding eq 0 grows_def by (auto intro: le_trans less_le_trans)
  next
    case (Suc i')
    then have "i' < length rest" using Cons.prems(2) by simp
    from Cons.IH [OF r this] show ?thesis by (simp add: eq Suc)
  qed
qed

lemma schedule_reuse:
  "schedule ss bufs = (ss', js) \<Longrightarrow> i < length bufs \<Longrightarrow> js ! i < length ss \<Longrightarrow>
     storage_last_read (ss ! (js ! i)) < first_access_tick (bufs ! i)"
proof (induction bufs arbitrary: ss js i)
  case Nil
  then show ?case by simp
next
  case (Cons cur rest)
  from Cons.prems(1) obtain s1 j js' where p: "place ss cur = (s1, j)"
    and r: "schedule s1 rest = (ss', js')" and eq: "js = j # js'"
    by (auto split: prod.splits)
  show ?case
  proof (cases i)
    case 0
    then show ?thesis using place_reuse [OF p] Cons.prems(3) by (simp add: eq)
  next
    case (Suc i')
    have g: "grows ss s1" by (rule place_grows [OF p])
    have i': "i' < length rest" using Cons.prems(2) Suc by simp
    have k: "js' ! i' < length ss" using Cons.prems(3) by (simp add: eq Suc)
    then have "js' ! i' < length s1" using g by (simp add: grows_def)
    from Cons.IH [OF r i' this] have "storage_last_read (s1 ! (js' ! i')) < first_access_tick (rest ! i')" .
    moreover have "storage_last_read (ss ! (js' ! i')) \<le> storage_last_read (s1 ! (js' ! i'))"
      using g k by (simp add: grows_def)
    ultimately show ?thesis by (simp add: eq Suc)
  qed
qed

lemma schedule_same_storage:
  "schedule ss bufs = (ss', js) \<Longrightarrow> i < j \<Longrightarrow> j < length bufs \<Longrightarrow> js ! i = js ! j \<Longrightarrow>
     last_read_tick (bufs ! i) < first_access_tick (bufs ! j)"
proof (induction bufs arbitrary: ss js i j)
  case Nil
  then show ?case by simp
next
  case (Cons cur rest)
  from Cons.prems(1) obtain s1 j0 js' where p: "place ss cur = (s1, j0)"
    and r: "schedule s1 rest = (ss', js')" and eq: "js = j0 # js'"
    by (auto split: prod.splits)
  obtain j' where j': "j = Suc j'" using Cons.prems(2) by (cases j) auto
  have j'l: "j' < length rest" using Cons.prems(3) j' by simp
  show ?case
  proof (cases i)
    case 0
    have same: "js' ! j' = j0" using Cons.prems(4) by (simp add: eq 0 j')
    have h: "j0 < length s1" "last_read_tick cur \<le> storage_last_read (s1 ! j0)"
      using place_holds [OF p] by simp_all
    have "storage_last_read (s1 ! (js' ! j')) < first_access_tick (rest ! j')"
      using schedule_reuse [OF r j'l] h(1) same by simp
    then show ?thesis using h(2) same by (simp add: 0 j')
  next
    case (Suc i')
    have "i' < j'" using Cons.prems(2) Suc j' by simp
    moreover have "js' ! i' = js' ! j'" using Cons.prems(4) by (simp add: eq Suc j')
    ultimately show ?thesis
      using Cons.IH [OF r _ j'l] by (simp add: Suc j')
  qed
qed

lemma storage_offset_mono:
  "a < b \<Longrightarrow> b \<le> length ss \<Longrightarrow>
     storage_offset ss a + storage_size (ss ! a) \<le> storage_offset ss b"
proof -
  assume a: "a < b" "b \<le> length ss"
  have al: "a < length ss" using a by simp
  obtain d where b: "b = Suc a + d" using a(1) by (metis less_iff_Suc_add add_Suc)
  have "take b ss = take (Suc a) ss @ take d (drop (Suc a) ss)"
    unfolding b by (rule take_add)
  then show ?thesis
    using al by (simp add: storage_offset_def take_Suc_conv_app_nth)
qed

lemma storage_offset_bound:
  "a < length ss \<Longrightarrow> storage_offset ss a + storage_size (ss ! a) \<le> arena_size ss"
  using storage_offset_mono [of a "length ss" ss]
  by (simp add: storage_offset_def arena_size_def)

text \<open>
  Claim C6.  In the plan of the scheduler, for any two buffers (\<open>i\<close> created before \<open>j\<close>):
  if their tick intervals from first access to last read overlap, their offset ranges do
  not overlap; if their offset ranges overlap, so that \<open>j\<close> reuses storage of \<open>i\<close>, the
  first access of \<open>j\<close> is strictly after the last read of \<open>i\<close>; and both ranges lie within
  the arena.
\<close>

theorem memory_plan_sound:
  assumes plan: "memory_plan bufs = (offs, total_size)" and ij: "i < j" and j: "j < length bufs"
  shows "(first_access_tick (bufs ! i) \<le> last_read_tick (bufs ! j)
            \<and> first_access_tick (bufs ! j) \<le> last_read_tick (bufs ! i)
          \<longrightarrow> offs ! i + buf_size (bufs ! i) \<le> offs ! j
              \<or> offs ! j + buf_size (bufs ! j) \<le> offs ! i)
       \<and> (offs ! i < offs ! j + buf_size (bufs ! j) \<and> offs ! j < offs ! i + buf_size (bufs ! i)
          \<longrightarrow> last_read_tick (bufs ! i) < first_access_tick (bufs ! j))
       \<and> offs ! i + buf_size (bufs ! i) \<le> total_size
       \<and> offs ! j + buf_size (bufs ! j) \<le> total_size"
proof -
  from plan obtain ss js where sch: "schedule [] bufs = (ss, js)"
    and offs: "offs = map (storage_offset ss) js" and total: "total_size = arena_size ss"
    by (auto simp: memory_plan_def split: prod.splits)
  have i: "i < length bufs" using ij j by simp
  have len: "length js = length bufs" by (rule schedule_length [OF sch])
  have hi: "js ! i < length ss" "buf_size (bufs ! i) \<le> storage_size (ss ! (js ! i))"
    using schedule_holds [OF sch i] by simp_all
  have hj: "js ! j < length ss" "buf_size (bufs ! j) \<le> storage_size (ss ! (js ! j))"
    using schedule_holds [OF sch j] by simp_all
  have oi: "offs ! i = storage_offset ss (js ! i)" using i len by (simp add: offs)
  have oj: "offs ! j = storage_offset ss (js ! j)" using j len by (simp add: offs)
  have bi: "offs ! i + buf_size (bufs ! i) \<le> total_size"
    using storage_offset_bound [OF hi(1)] hi(2) by (simp add: oi total)
  have bj: "offs ! j + buf_size (bufs ! j) \<le> total_size"
    using storage_offset_bound [OF hj(1)] hj(2) by (simp add: oj total)
  have cases: "offs ! i + buf_size (bufs ! i) \<le> offs ! j
       \<or> offs ! j + buf_size (bufs ! j) \<le> offs ! i
       \<or> last_read_tick (bufs ! i) < first_access_tick (bufs ! j)"
  proof -
    consider "js ! i < js ! j" | "js ! j < js ! i" | "js ! i = js ! j" by linarith
    then show ?thesis
    proof cases
      case 1
      have "storage_offset ss (js ! i) + storage_size (ss ! (js ! i)) \<le> storage_offset ss (js ! j)"
        using storage_offset_mono [OF 1, of ss] hj(1) by simp
      then show ?thesis using hi(2) by (simp add: oi oj)
    next
      case 2
      have "storage_offset ss (js ! j) + storage_size (ss ! (js ! j)) \<le> storage_offset ss (js ! i)"
        using storage_offset_mono [OF 2, of ss] hi(1) by simp
      then show ?thesis using hj(2) by (simp add: oi oj)
    next
      case 3
      from schedule_same_storage [OF sch ij j 3] show ?thesis by simp
    qed
  qed
  show ?thesis using cases bi bj by auto
qed

lemma demo_plan_reuse: "memory_plan scenario_buffers = ([0, 0], 100)"
  by (simp add: scenario_buffers_def memory_plan_def place_def reusable_def storage_offset_def
        arena_size_def)

lemma demo_plan_overlap: "memory_plan demo_buffers = ([0, 150, 0], 200)"
  by (simp add: demo_buffers_def memory_plan_def place_def reusable_def storage_offset_def
        arena_size_def)

text \<open>The second buffer overlaps the first in time and gets a range of its own; the third
  replaces the first, extends it, and is first accessed after the last read of the first.\<close>

theorem memory_plan_sound_witness:
  "memory_plan demo_buffers = ([0, 150, 0], 200)
   \<and> length demo_buffers = 3
   \<and> first_access_tick (demo_buffers ! 0) \<le> last_read_tick (demo_buffers ! 1)
   \<and> first_access_tick (demo_buffers ! 1) \<le> last_read_tick (demo_buffers ! 0)
   \<and> 0 + buf_size (demo_buffers ! 0) \<le> (150 :: nat)
   \<and> last_read_tick (demo_buffers ! 0) < first_access_tick (demo_buffers ! 2)"
proof -
  have l: "(0 :: nat) < 1" "(1 :: nat) < length demo_buffers"
    by (simp_all add: demo_buffers_def)
  have rest: "length demo_buffers = 3
   \<and> first_access_tick (demo_buffers ! 0) \<le> last_read_tick (demo_buffers ! 1)
   \<and> first_access_tick (demo_buffers ! 1) \<le> last_read_tick (demo_buffers ! 0)
   \<and> 0 + buf_size (demo_buffers ! 0) \<le> (150 :: nat)
   \<and> last_read_tick (demo_buffers ! 0) < first_access_tick (demo_buffers ! 2)"
    by (simp add: demo_buffers_def)
  show ?thesis
    using memory_plan_sound [OF demo_plan_overlap l] demo_plan_overlap rest by blast
qed

end
